theory Spec2Isabelle
  imports Main "HOL-Library.AList"
begin

section \<open>JSON values, Python dictionaries and exceptions\<close>

text \<open>
  Messages are the values that \<^verbatim>\<open>receive_json\<close> returns and \<^verbatim>\<open>send_json\<close> takes.
  Python's \<^verbatim>\<open>None\<close> and JSON's \<^verbatim>\<open>null\<close> are both \<open>JNull\<close>. Numbers are only ever
  relayed, never computed with. An object stands for the decoded dictionary, whose keys
  are distinct.
\<close>

datatype json =
    JNull
  | JBool bool
  | JNum int
  | JStr string
  | JArr "json list"
  | JObj "(string \<times> json) list"

text \<open>
  A Python \<^verbatim>\<open>dict\<close> keeps its keys in insertion order: assigning to a key that is present
  keeps its position, assigning to a new key appends it. That is an association list with
  \<open>AList.update\<close>.
\<close>

type_synonym ('k, 'v) pydict = "('k \<times> 'v) list"

fun is_object :: "json \<Rightarrow> bool" where
  "is_object (JObj d) = True"
| "is_object _ = False"

datatype py_error =
    KeyError
  | TypeError
  | AttributeError
  | JSONDecodeError
  | WebSocketDisconnect
  | SendFailure
  | RuntimeError

definition dict_in :: "'k \<Rightarrow> ('k, 'v) pydict \<Rightarrow> bool" where
  \<comment> \<open>\<^verbatim>\<open>k in d\<close>\<close>
  "dict_in k d = (k \<in> set (map fst d))"

definition dict_item :: "'k \<Rightarrow> ('k, 'v) pydict \<Rightarrow> py_error + 'v" where
  \<comment> \<open>\<^verbatim>\<open>d[k]\<close>\<close>
  "dict_item k d = (case map_of d k of None \<Rightarrow> Inl KeyError | Some v \<Rightarrow> Inr v)"

definition dict_get :: "('k, 'v) pydict \<Rightarrow> 'k \<Rightarrow> 'v \<Rightarrow> 'v" where
  \<comment> \<open>\<^verbatim>\<open>d.get(k, default)\<close>\<close>
  "dict_get d k dflt = (case map_of d k of None \<Rightarrow> dflt | Some v \<Rightarrow> v)"

definition dict_set :: "'k \<Rightarrow> 'v \<Rightarrow> ('k, 'v) pydict \<Rightarrow> ('k, 'v) pydict" where
  \<comment> \<open>\<^verbatim>\<open>d[k] = v\<close>\<close>
  "dict_set k v d = AList.update k v d"

definition dict_del :: "'k \<Rightarrow> ('k, 'v) pydict \<Rightarrow> py_error + ('k, 'v) pydict" where
  \<comment> \<open>\<^verbatim>\<open>del d[k]\<close>\<close>
  "dict_del k d = (if dict_in k d then Inr (AList.delete k d) else Inl KeyError)"

definition dict_merge :: "('k, 'v) pydict \<Rightarrow> ('k, 'v) pydict \<Rightarrow> ('k, 'v) pydict" where
  \<comment> \<open>\<^verbatim>\<open>{**base, **extra}\<close>: the keys of \<open>extra\<close> are assigned in order\<close>
  "dict_merge base extra = foldl (\<lambda>d (k, v). dict_set k v d) base extra"

section \<open>The registry and the channels\<close>

text \<open>
  A \<^verbatim>\<open>WebSocket\<close> object is known by its identity. Whether a \<^verbatim>\<open>send_json\<close> on it
  raises is not decided by this program: it is the parameter \<open>fails\<close> of every operation
  that sends. Each attempt is logged as an event.
\<close>

type_synonym websocket = nat

datatype event =
    Sent websocket json
  | Lost websocket json

record registry =
  rooms :: "(string, (string, websocket) pydict) pydict"
  users :: "(string, (string, json) pydict) pydict"

definition empty_registry :: registry where
  "empty_registry = \<lparr>rooms = [], users = []\<rparr>"

text \<open>
  An operation on the registry returns its value or the exception it raised, the registry
  as it has left it (also when it raised), and the events it caused.
\<close>

type_synonym 'a result = "(py_error + 'a) \<times> registry \<times> event list"

definition lift_e :: "py_error + 'a \<Rightarrow> registry \<Rightarrow> 'a result" where
  "lift_e r s = (r, s, [])"

definition then_do :: "'a result \<Rightarrow> ('a \<Rightarrow> registry \<Rightarrow> 'b result) \<Rightarrow> 'b result" where
  "then_do m f =
     (case m of
        (Inl e, s, tr) \<Rightarrow> (Inl e, s, tr)
      | (Inr x, s, tr) \<Rightarrow> (case f x s of (r, s', tr') \<Rightarrow> (r, s', tr @ tr')))"

definition state_of :: "'a result \<Rightarrow> registry" where
  "state_of r = fst (snd r)"

definition events_of :: "'a result \<Rightarrow> event list" where
  "events_of r = snd (snd r)"

definition send_json :: "(websocket \<Rightarrow> bool) \<Rightarrow> websocket \<Rightarrow> json \<Rightarrow> registry \<Rightarrow> unit result" where
  "send_json fails ws message s =
     (if fails ws then (Inl SendFailure, s, [Lost ws message])
      else (Inr (), s, [Sent ws message]))"

section \<open>ConnectionManager\<close>

definition disconnect :: "string \<Rightarrow> string \<Rightarrow> registry \<Rightarrow> unit result" where
  "disconnect room_id user_id s =
     then_do
       (if dict_in room_id (rooms s) then
          then_do (lift_e (dict_item room_id (rooms s)) s) (\<lambda>conns s.
            if dict_in user_id conns then
              then_do (lift_e (dict_del user_id conns) s) (\<lambda>conns' s.
                let s1 = s\<lparr>rooms := dict_set room_id conns' (rooms s)\<rparr> in
                if conns' = [] then
                  then_do (lift_e (dict_del room_id (rooms s1)) s1) (\<lambda>rs s.
                    (Inr (), s\<lparr>rooms := rs\<rparr>, []))
                else (Inr (), s1, []))
            else (Inr (), s, []))
        else (Inr (), s, []))
       (\<lambda>_ s.
          if dict_in user_id (users s) then
            then_do (lift_e (dict_del user_id (users s)) s) (\<lambda>us s.
              (Inr (), s\<lparr>users := us\<rparr>, []))
          else (Inr (), s, []))"

text \<open>
  Registering the connection (the first statements of the \<^verbatim>\<open>join\<close> branch, the same as in
  \<^verbatim>\<open>ConnectionManager.connect\<close>). Unpacking a \<^verbatim>\<open>user_info\<close> that is no object raises
  \<^verbatim>\<open>TypeError\<close>, after the room has been written.
\<close>

definition add_participant ::
  "websocket \<Rightarrow> string \<Rightarrow> string \<Rightarrow> json \<Rightarrow> registry \<Rightarrow> unit result" where
  "add_participant websocket room_id user_id user_info s =
     (let s1 = (if \<not> dict_in room_id (rooms s)
                then s\<lparr>rooms := dict_set room_id [] (rooms s)\<rparr> else s) in
      then_do (lift_e (dict_item room_id (rooms s1)) s1) (\<lambda>conns s.
        let s2 = s\<lparr>rooms := dict_set room_id (dict_set user_id websocket conns) (rooms s)\<rparr> in
        case user_info of
          JObj info \<Rightarrow>
            (Inr (),
             s2\<lparr>users := dict_set user_id
                      (dict_set ''room_id'' (JStr room_id) (dict_merge [] info)) (users s2)\<rparr>,
             [])
        | _ \<Rightarrow> (Inl TypeError, s2, [])))"

text \<open>
  While one handler waits for a \<^verbatim>\<open>send_json\<close>, the handlers of the other connections
  run. What they do to the registry they do in blocks that do not wait: a registration
  (\<open>Joins\<close>) or a \<^verbatim>\<open>disconnect\<close> (\<open>Leaves\<close>).
\<close>

datatype mutation =
    Joins websocket string string json
  | Leaves string string

fun mutate :: "mutation \<Rightarrow> registry \<Rightarrow> registry" where
  "mutate (Joins websocket room_id user_id user_info) s =
     state_of (add_participant websocket room_id user_id user_info s)"
| "mutate (Leaves room_id user_id) s = state_of (disconnect room_id user_id s)"

fun mutate_all :: "mutation list \<Rightarrow> registry \<Rightarrow> registry" where
  "mutate_all [] s = s"
| "mutate_all (m # ms) s = mutate_all ms (mutate m s)"

text \<open>
  What the others do during the waits of one operation is a list with one entry for each
  wait, in order; past its end nobody does anything.
\<close>

definition during :: "'a list list \<Rightarrow> 'a list" where
  "during others = (case others of [] \<Rightarrow> [] | ms # rest \<Rightarrow> ms)"

text \<open>
  The first loop of \<^verbatim>\<open>broadcast_to_room\<close> runs over \<^verbatim>\<open>rooms[room_id].items()\<close>, the
  room's dictionary itself, and waits inside. The dictionary is a table of entries in the
  order of insertion: deleting a key leaves an empty slot, a new key goes to the end, a
  key that is present keeps its slot. The iterator remembers the size of the dictionary
  and the number of entries it has still to give. Each time it is asked for the next entry
  it raises \<^verbatim>\<open>RuntimeError\<close> when the size has changed, skips the empty slots, and raises
  as well when it finds an entry after it has given as many as there were. A room's
  dictionary that has become empty has been deleted from \<open>rooms\<close>: a later join makes a
  new one. The table is taken not to be rebuilt while the loop runs.
\<close>

type_synonym slots = "(string \<times> websocket) option list"

fun live :: "slots \<Rightarrow> (string, websocket) pydict" where
  "live [] = []"
| "live (None # sl) = live sl"
| "live (Some e # sl) = e # live sl"

fun bury :: "string \<Rightarrow> slots \<Rightarrow> slots" where
  "bury u [] = []"
| "bury u (None # sl) = None # bury u sl"
| "bury u (Some (k, w) # sl) = (if k = u then None else Some (k, w)) # bury u sl"

fun rebind :: "string \<Rightarrow> websocket \<Rightarrow> slots \<Rightarrow> slots" where
  "rebind u ws [] = []"
| "rebind u ws (None # sl) = None # rebind u ws sl"
| "rebind u ws (Some (k, w) # sl) = (if k = u then Some (k, ws) else Some (k, w)) # rebind u ws sl"

text \<open>
  What a block of another handler does to the dictionary under the iterator, given as the
  slots the iterator has passed and those ahead of it.
\<close>

fun track :: "string \<Rightarrow> mutation \<Rightarrow> slots \<times> slots \<Rightarrow> slots \<times> slots" where
  "track room_id (Leaves r u) (passed, ahead) =
     (if r = room_id \<and> live (passed @ ahead) \<noteq> [] then (bury u passed, bury u ahead)
      else (passed, ahead))"
| "track room_id (Joins ws r u user_info) (passed, ahead) =
     (if r = room_id \<and> live (passed @ ahead) \<noteq> [] then
        (if dict_in u (live (passed @ ahead)) then (rebind u ws passed, rebind u ws ahead)
         else (passed, ahead @ [Some (u, ws)]))
      else (passed, ahead))"

fun track_all :: "string \<Rightarrow> mutation list \<Rightarrow> slots \<times> slots \<Rightarrow> slots \<times> slots" where
  "track_all room_id [] d = d"
| "track_all room_id (m # ms) d = track_all room_id ms (track room_id m d)"

text \<open>
  The loop: \<open>used\<close> is the size the iterator remembers, \<open>remaining\<close> the number of
  entries it has still to give. One \<^verbatim>\<open>send_json\<close> for each entry but the excluded one,
  collecting the keys whose send raised; the others act during each send.
\<close>

fun live_loop ::
  "(websocket \<Rightarrow> bool) \<Rightarrow> json \<Rightarrow> string option \<Rightarrow> string \<Rightarrow> nat \<Rightarrow> nat \<Rightarrow>
   mutation list list \<Rightarrow> slots \<Rightarrow> slots \<Rightarrow> registry \<Rightarrow> string list \<Rightarrow> event list \<Rightarrow>
   string list result" where
  "live_loop fails message exclude_user room_id used remaining others passed [] s
     disconnected_users tr =
     (if length (live passed) \<noteq> used then (Inl RuntimeError, s, tr)
      else (Inr disconnected_users, s, tr))"
| "live_loop fails message exclude_user room_id used remaining others passed (None # ahead) s
     disconnected_users tr =
     live_loop fails message exclude_user room_id used remaining others (passed @ [None]) ahead s
       disconnected_users tr"
| "live_loop fails message exclude_user room_id used 0 others passed (Some e # ahead) s
     disconnected_users tr = (Inl RuntimeError, s, tr)"
| "live_loop fails message exclude_user room_id used (Suc remaining) others passed
     (Some (user_id, websocket) # ahead) s disconnected_users tr =
     (if length (live (passed @ Some (user_id, websocket) # ahead)) \<noteq> used then
        (Inl RuntimeError, s, tr)
      else if Some user_id = exclude_user then
        live_loop fails message exclude_user room_id used remaining others
          (passed @ [Some (user_id, websocket)]) ahead s disconnected_users tr
      else
        (case track_all room_id (during others) (passed @ [Some (user_id, websocket)], ahead) of
           (passed', ahead') \<Rightarrow>
             live_loop fails message exclude_user room_id used remaining (tl others)
               passed' ahead' (mutate_all (during others) s)
               (if fails websocket then disconnected_users @ [user_id] else disconnected_users)
               (tr @ [if fails websocket then Lost websocket message
                      else Sent websocket message])))"

text \<open>The second loop: \<^verbatim>\<open>disconnect\<close> for each collected key.\<close>

fun disconnect_each :: "string \<Rightarrow> string list \<Rightarrow> registry \<Rightarrow> unit result" where
  "disconnect_each room_id [] s = (Inr (), s, [])"
| "disconnect_each room_id (user_id # rest) s =
     (case disconnect room_id user_id s of
        (Inl e, s', tr) \<Rightarrow> (Inl e, s', tr)
      | (Inr _, s', tr) \<Rightarrow>
          (case disconnect_each room_id rest s' of (r, s'', tr') \<Rightarrow> (r, s'', tr @ tr')))"

text \<open>
  A \<^verbatim>\<open>RuntimeError\<close> of the first loop is raised outside its \<^verbatim>\<open>try\<close>: it leaves
  \<^verbatim>\<open>broadcast_to_room\<close> before the second loop.
\<close>

definition broadcast_to_room ::
  "(websocket \<Rightarrow> bool) \<Rightarrow> mutation list list \<Rightarrow> string \<Rightarrow> json \<Rightarrow> string option \<Rightarrow> registry \<Rightarrow>
   unit result" where
  "broadcast_to_room fails others room_id message exclude_user s =
     (if \<not> dict_in room_id (rooms s) then (Inr (), s, [])
      else
        then_do (lift_e (dict_item room_id (rooms s)) s) (\<lambda>conns s.
          then_do
            (live_loop fails message exclude_user room_id (length conns) (length conns) others
               [] (map Some conns) s [] [])
            (\<lambda>disconnected_users s. disconnect_each room_id disconnected_users s)))"

text \<open>
  \<^verbatim>\<open>send_to_user\<close> is called with whatever \<^verbatim>\<open>data.get("target_user_id")\<close> gave. A list or
  an object is unhashable, so the membership test on the room raises \<^verbatim>\<open>TypeError\<close>; any
  other value that is not a string is no key of the room.
\<close>

definition send_to_user ::
  "(websocket \<Rightarrow> bool) \<Rightarrow> string \<Rightarrow> json \<Rightarrow> json \<Rightarrow> registry \<Rightarrow> unit result" where
  "send_to_user fails room_id user_id message s =
     (if dict_in room_id (rooms s) then
        then_do (lift_e (dict_item room_id (rooms s)) s) (\<lambda>conns s.
          case user_id of
            JArr _ \<Rightarrow> (Inl TypeError, s, [])
          | JObj _ \<Rightarrow> (Inl TypeError, s, [])
          | JStr target \<Rightarrow>
              if dict_in target conns then
                then_do (lift_e (dict_item target conns) s) (\<lambda>websocket s.
                  if fails websocket then
                    then_do (Inr (), s, [Lost websocket message]) (\<lambda>_ s.
                      disconnect room_id target s)
                  else (Inr (), s, [Sent websocket message]))
              else (Inr (), s, [])
          | _ \<Rightarrow> (Inr (), s, []))
      else (Inr (), s, []))"

text \<open>An entry of the listing: \<^verbatim>\<open>{"user_id": user_id, **users[user_id]}\<close>.\<close>

definition participant_entry :: "string \<Rightarrow> (string, json) pydict \<Rightarrow> json" where
  "participant_entry user_id info = JObj (dict_merge [(''user_id'', JStr user_id)] info)"

text \<open>The loop of \<^verbatim>\<open>get_room_participants\<close>, with its accumulator.\<close>

fun collect_participants ::
  "(string, (string, json) pydict) pydict \<Rightarrow> string list \<Rightarrow> json list \<Rightarrow> py_error + json list" where
  "collect_participants us [] participants = Inr participants"
| "collect_participants us (user_id # rest) participants =
     (if dict_in user_id us then
        (case dict_item user_id us of
           Inl e \<Rightarrow> Inl e
         | Inr info \<Rightarrow>
             collect_participants us rest
               (participants @ [participant_entry user_id info]))
      else collect_participants us rest participants)"

definition get_room_participants :: "string \<Rightarrow> registry \<Rightarrow> py_error + json list" where
  "get_room_participants room_id s =
     (if \<not> dict_in room_id (rooms s) then Inr []
      else
        (case dict_item room_id (rooms s) of
           Inl e \<Rightarrow> Inl e
         | Inr conns \<Rightarrow> collect_participants (users s) (map fst conns) []))"

section \<open>The WebSocket endpoint\<close>

text \<open>
  What the handler reads from its channel: a decoded JSON text, or a text that
  \<^verbatim>\<open>receive_json\<close> cannot decode. When the list is used up the peer has closed the
  channel and \<^verbatim>\<open>receive_json\<close> raises \<^verbatim>\<open>WebSocketDisconnect\<close>.
\<close>

datatype frame = Json json | Malformed

text \<open>
  The first message. The call of the notification gateway that ends the \<^verbatim>\<open>join\<close> branch
  is a task of its own that touches neither the registry nor a channel, and the exceptions
  of its preparation are caught on the spot; it is left out.
\<close>

definition handle_init ::
  "(websocket \<Rightarrow> bool) \<Rightarrow> mutation list list \<Rightarrow> websocket \<Rightarrow> string \<Rightarrow> string \<Rightarrow> json \<Rightarrow>
   registry \<Rightarrow> unit result" where
  "handle_init fails others websocket room_id user_id init_message s =
     (case init_message of
        JObj d \<Rightarrow>
          if dict_get d ''type'' JNull = JStr ''join'' then
            let user_info = dict_get d ''user_info'' (JObj []) in
            then_do (add_participant websocket room_id user_id user_info s) (\<lambda>_ s.
            then_do (lift_e (get_room_participants room_id s) s) (\<lambda>participants s.
            then_do (send_json fails websocket
                       (JObj [(''type'', JStr ''room_state''),
                              (''participants'', JArr participants)]) s) (\<lambda>_ s.
              broadcast_to_room fails others room_id
                (JObj [(''type'', JStr ''user_joined''),
                       (''user_id'', JStr user_id),
                       (''user_info'', user_info)])
                (Some user_id) s)))
          else (Inr (), s, [])
      | _ \<Rightarrow> (Inl AttributeError, s, []))"

text \<open>One turn of the signaling loop, for the message just read.\<close>

definition signal_step ::
  "(websocket \<Rightarrow> bool) \<Rightarrow> mutation list list \<Rightarrow> string \<Rightarrow> string \<Rightarrow> json \<Rightarrow> registry \<Rightarrow>
   unit result" where
  "signal_step fails others room_id user_id data s =
     (case data of
        JObj d \<Rightarrow>
          let message_type = dict_get d ''type'' JNull in
          if message_type = JStr ''offer'' then
            send_to_user fails room_id (dict_get d ''target_user_id'' JNull)
              (JObj [(''type'', JStr ''offer''),
                     (''from_user_id'', JStr user_id),
                     (''offer'', dict_get d ''offer'' JNull)]) s
          else if message_type = JStr ''answer'' then
            send_to_user fails room_id (dict_get d ''target_user_id'' JNull)
              (JObj [(''type'', JStr ''answer''),
                     (''from_user_id'', JStr user_id),
                     (''answer'', dict_get d ''answer'' JNull)]) s
          else if message_type = JStr ''ice_candidate'' then
            send_to_user fails room_id (dict_get d ''target_user_id'' JNull)
              (JObj [(''type'', JStr ''ice_candidate''),
                     (''from_user_id'', JStr user_id),
                     (''candidate'', dict_get d ''candidate'' JNull)]) s
          else if message_type = JStr ''speaking'' then
            broadcast_to_room fails others room_id
              (JObj [(''type'', JStr ''speaking''),
                     (''user_id'', JStr user_id),
                     (''is_speaking'', dict_get d ''is_speaking'' (JBool False))])
              (Some user_id) s
          else (Inr (), s, [])
      | _ \<Rightarrow> (Inl AttributeError, s, []))"

text \<open>
  The \<^verbatim>\<open>while True\<close> loop. It is left by an exception only: the channel closes, a text
  does not decode, or a turn raises. \<open>envs\<close> has, for each message in order, what the
  others do during the waits of its turn.
\<close>

fun signal_loop ::
  "(websocket \<Rightarrow> bool) \<Rightarrow> mutation list list list \<Rightarrow> string \<Rightarrow> string \<Rightarrow> frame list \<Rightarrow>
   registry \<Rightarrow> unit result" where
  "signal_loop fails envs room_id user_id [] s = (Inl WebSocketDisconnect, s, [])"
| "signal_loop fails envs room_id user_id (Malformed # rest) s = (Inl JSONDecodeError, s, [])"
| "signal_loop fails envs room_id user_id (Json data # rest) s =
     (case signal_step fails (during envs) room_id user_id data s of
        (Inl e, s', tr) \<Rightarrow> (Inl e, s', tr)
      | (Inr _, s', tr) \<Rightarrow>
          (case signal_loop fails (tl envs) room_id user_id rest s' of
             (r, s'', tr') \<Rightarrow> (r, s'', tr @ tr')))"

text \<open>
  The body of the \<^verbatim>\<open>try\<close> statement, from the first \<^verbatim>\<open>receive_json\<close> on. A
  channel that cannot be accepted is a channel that closes before its first message. The
  first entry of \<open>envs\<close> is for the first message, the others for the messages of
  the loop.
\<close>

definition try_body ::
  "(websocket \<Rightarrow> bool) \<Rightarrow> mutation list list list \<Rightarrow> websocket \<Rightarrow> string \<Rightarrow> string \<Rightarrow>
   frame list \<Rightarrow> registry \<Rightarrow> unit result" where
  "try_body fails envs websocket room_id user_id frames s =
     (case frames of
        [] \<Rightarrow> (Inl WebSocketDisconnect, s, [])
      | Malformed # rest \<Rightarrow> (Inl JSONDecodeError, s, [])
      | Json init_message # rest \<Rightarrow>
          then_do (handle_init fails (during envs) websocket room_id user_id init_message s)
            (\<lambda>_ s. signal_loop fails (tl envs) room_id user_id rest s))"

text \<open>The \<^verbatim>\<open>finally\<close> clause.\<close>

definition cleanup ::
  "(websocket \<Rightarrow> bool) \<Rightarrow> mutation list list \<Rightarrow> string \<Rightarrow> string \<Rightarrow> registry \<Rightarrow> unit result" where
  "cleanup fails others room_id user_id s =
     then_do (disconnect room_id user_id s) (\<lambda>_ s.
       broadcast_to_room fails others room_id
         (JObj [(''type'', JStr ''user_left''), (''user_id'', JStr user_id)]) None s)"

text \<open>
  The whole handler of one connection: \<open>envs\<close> is what the others do during the
  broadcasts of the body, \<open>final\<close> what they do during the broadcast of the
  \<^verbatim>\<open>finally\<close> clause. Both \<^verbatim>\<open>except\<close> clauses swallow the exception of the body, so the
  \<^verbatim>\<open>finally\<close> clause starts from the registry and the events the body has left.
\<close>

definition websocket_endpoint ::
  "(websocket \<Rightarrow> bool) \<Rightarrow> mutation list list list \<Rightarrow> mutation list list \<Rightarrow> websocket \<Rightarrow>
   string \<Rightarrow> string \<Rightarrow> frame list \<Rightarrow> registry \<Rightarrow> unit result" where
  "websocket_endpoint fails envs final websocket room_id user_id frames s =
     (case try_body fails envs websocket room_id user_id frames s of
        (_, s1, tr1) \<Rightarrow>
          then_do (Inr (), s1, tr1) (\<lambda>_ s. cleanup fails final room_id user_id s))"

text \<open>
  Whether the first thing a connection sends is a JSON object, and whether it is a message
  of type \<open>join\<close>.
\<close>

definition first_is_object :: "frame list \<Rightarrow> bool" where
  "first_is_object frames =
     (case frames of Json (JObj d) # rest \<Rightarrow> True | _ \<Rightarrow> False)"

definition first_is_join :: "frame list \<Rightarrow> bool" where
  "first_is_join frames =
     (case frames of
        Json (JObj d) # rest \<Rightarrow> dict_get d ''type'' JNull = JStr ''join''
      | _ \<Rightarrow> False)"

section \<open>Histories of the registry\<close>

text \<open>
  The steps that change the registry: a valid join, a leave, a broadcast and a unicast
  (with the channels that are dead when it runs), and the whole session of one connection;
  a broadcast and a session together with what the other connections do during their
  waits.
\<close>

datatype op =
    Join websocket string string "(string, json) pydict"
  | Leave string string
  | Broadcast "websocket list" "mutation list list" string json "string option"
  | Unicast "websocket list" string json json
  | Session "websocket list" "mutation list list list" "mutation list list"
      websocket string string "frame list"

fun apply_op :: "op \<Rightarrow> registry \<Rightarrow> registry" where
  "apply_op (Join websocket room_id user_id info) s =
     state_of (add_participant websocket room_id user_id (JObj info) s)"
| "apply_op (Leave room_id user_id) s = state_of (disconnect room_id user_id s)"
| "apply_op (Broadcast dead others room_id message exclude_user) s =
     state_of (broadcast_to_room (\<lambda>w. w \<in> set dead) others room_id message exclude_user s)"
| "apply_op (Unicast dead room_id target message) s =
     state_of (send_to_user (\<lambda>w. w \<in> set dead) room_id target message s)"
| "apply_op (Session dead envs final websocket room_id user_id frames) s =
     state_of (websocket_endpoint (\<lambda>w. w \<in> set dead) envs final websocket room_id user_id
       frames s)"

fun run_ops :: "op list \<Rightarrow> registry \<Rightarrow> registry" where
  "run_ops [] s = s"
| "run_ops (x # xs) s = run_ops xs (apply_op x s)"

text \<open>
  The keys bound to a room, in the order of the room's dictionary; none for a room that
  is not in the registry.
\<close>

definition room_members :: "string \<Rightarrow> registry \<Rightarrow> string list" where
  "room_members room_id s =
     (case map_of (rooms s) room_id of None \<Rightarrow> [] | Some conns \<Rightarrow> map fst conns)"

text \<open>The rooms dictionary as one \<^verbatim>\<open>disconnect\<close> leaves it, written out.\<close>

definition rooms_less ::
  "string \<Rightarrow> string \<Rightarrow> (string, (string, websocket) pydict) pydict \<Rightarrow>
   (string, (string, websocket) pydict) pydict" where
  "rooms_less room_id user_id rs =
     (case map_of rs room_id of
        None \<Rightarrow> rs
      | Some conns \<Rightarrow>
          if dict_in user_id conns then
            (if AList.delete user_id conns = [] then AList.delete room_id rs
             else AList.update room_id (AList.delete user_id conns) rs)
          else rs)"

text \<open>The registry after one \<^verbatim>\<open>disconnect\<close> for each key of a list, in order.\<close>

fun leave_all :: "string \<Rightarrow> string list \<Rightarrow> registry \<Rightarrow> registry" where
  "leave_all room_id [] s = s"
| "leave_all room_id (user_id # rest) s =
     leave_all room_id rest (state_of (disconnect room_id user_id s))"

text \<open>
  What a broadcast owes, in the words of its contract: one attempt for each entry of the
  room but the excluded key, in the room's order, and the keys of the attempts that failed.
\<close>

definition broadcast_attempts ::
  "(websocket \<Rightarrow> bool) \<Rightarrow> json \<Rightarrow> string option \<Rightarrow> (string, websocket) pydict \<Rightarrow> event list" where
  "broadcast_attempts fails message exclude_user conns =
     map (\<lambda>(u, w). if fails w then Lost w message else Sent w message)
       (filter (\<lambda>(u, w). Some u \<noteq> exclude_user) conns)"

definition failed_recipients ::
  "(websocket \<Rightarrow> bool) \<Rightarrow> string option \<Rightarrow> (string, websocket) pydict \<Rightarrow> string list" where
  "failed_recipients fails exclude_user conns =
     map fst (filter (\<lambda>(u, w). Some u \<noteq> exclude_user \<and> fails w) conns)"

text \<open>
  All that the others do during the waits of one operation, and during those of the body
  of a session.
\<close>

definition acts :: "mutation list list \<Rightarrow> mutation set" where
  "acts others = set (concat others)"

definition session_acts :: "mutation list list list \<Rightarrow> mutation set" where
  "session_acts envs = set (concat (concat envs))"

text \<open>The calls of \<^verbatim>\<open>disconnect\<close> for one room.\<close>

definition leaves_of :: "string \<Rightarrow> mutation set" where
  "leaves_of room_id = range (Leaves room_id)"

text \<open>
  \<open>evolves A s s'\<close>: the registry \<open>s'\<close> is \<open>s\<close> after some registrations and calls
  of \<^verbatim>\<open>disconnect\<close>, all of them among \<open>A\<close>. \<open>joined_to r A\<close> are the keys that a
  registration of \<open>A\<close> binds to room \<open>r\<close>, \<open>joined A\<close> those it binds to any room.
\<close>

definition evolves :: "mutation set \<Rightarrow> registry \<Rightarrow> registry \<Rightarrow> bool" where
  "evolves A s s' = (\<exists>ms. set ms \<subseteq> A \<and> s' = mutate_all ms s)"

definition joined_to :: "string \<Rightarrow> mutation set \<Rightarrow> string set" where
  "joined_to room_id A = {u. \<exists>ws user_info. Joins ws room_id u user_info \<in> A}"

definition joined :: "mutation set \<Rightarrow> string set" where
  "joined A = {u. \<exists>ws r user_info. Joins ws r u user_info \<in> A}"

text \<open>What holds of every registry that a history leaves.\<close>

definition no_empty_room :: "registry \<Rightarrow> bool" where
  "no_empty_room s = (\<forall>r conns. map_of (rooms s) r = Some conns \<longrightarrow> conns \<noteq> [])"

definition users_bound :: "registry \<Rightarrow> bool" where
  "users_bound s =
     (\<forall>u info. map_of (users s) u = Some info \<longrightarrow>
        (\<exists>r. map_of info ''room_id'' = Some (JStr r) \<and> u \<in> set (room_members r s)))"

definition keys_distinct :: "registry \<Rightarrow> bool" where
  "keys_distinct s =
     (distinct (map fst (rooms s)) \<and> distinct (map fst (users s)) \<and>
      (\<forall>r. distinct (room_members r s)))"


section \<open>Basic facts\<close>

lemma dict_in_map_of: "dict_in k d \<longleftrightarrow> map_of d k \<noteq> None"
  unfolding dict_in_def by (simp add: map_of_eq_None_iff)

lemma dict_item_in: "dict_in k d \<Longrightarrow> \<exists>v. dict_item k d = Inr v \<and> map_of d k = Some v"
  by (cases "map_of d k") (simp_all add: dict_in_map_of dict_item_def)

lemma dict_item_Some: "map_of d k = Some v \<Longrightarrow> dict_item k d = Inr v"
  by (simp add: dict_item_def)

lemma dict_in_Some: "map_of d k = Some v \<Longrightarrow> dict_in k d"
  by (simp add: dict_in_map_of)

lemma dict_in_None: "map_of d k = None \<Longrightarrow> \<not> dict_in k d"
  by (simp add: dict_in_map_of)

lemma then_do_Inr: "then_do (Inr x, s, tr) f = (case f x s of (r, s', tr') \<Rightarrow> (r, s', tr @ tr'))"
  by (simp add: then_do_def)

lemma then_do_Inl: "then_do (Inl e, s, tr) f = (Inl e, s, tr)"
  by (simp add: then_do_def)

lemmas run_simps = then_do_Inr then_do_Inl lift_e_def

lemma dict_del_in: "dict_in k d \<Longrightarrow> dict_del k d = Inr (AList.delete k d)"
  by (simp add: dict_del_def)

lemma delete_not_in: "\<not> dict_in k d \<Longrightarrow> AList.delete k d = d"
  by (simp add: dict_in_def)

lemma dict_in_update: "dict_in k (AList.update k v d)"
  by (simp add: dict_in_map_of update_conv')

lemma disconnect_users_part:
  "(if dict_in u (users s) then
      then_do (lift_e (dict_del u (users s)) s) (\<lambda>us s. (Inr (), s\<lparr>users := us\<rparr>, []))
    else (Inr (), s, []))
   = (Inr (), s\<lparr>users := AList.delete u (users s)\<rparr>, [])"
  by (simp add: dict_del_in delete_not_in run_simps)

lemma disconnect_eq:
  "disconnect r u s =
     (Inr (), s\<lparr>rooms := rooms_less r u (rooms s), users := AList.delete u (users s)\<rparr>, [])"
proof (cases "map_of (rooms s) r")
  case None
  then have "\<not> dict_in r (rooms s)" by (rule dict_in_None)
  with None show ?thesis
    unfolding disconnect_def
    by (simp add: run_simps rooms_less_def disconnect_users_part)
next
  case (Some conns)
  then have i: "dict_in r (rooms s)" and c: "dict_item r (rooms s) = Inr conns"
    by (simp_all add: dict_in_Some dict_item_Some)
  show ?thesis
  proof (cases "dict_in u conns")
    case False
    with Some i c show ?thesis
      unfolding disconnect_def
      by (simp add: run_simps rooms_less_def disconnect_users_part)
  next
    case True
    with Some i c show ?thesis
      unfolding disconnect_def
      by (simp add: run_simps rooms_less_def disconnect_users_part dict_del_in dict_set_def
          dict_in_update delete_update_same Let_def)
  qed
qed

lemma state_of_simp: "state_of (r, s, tr) = s"
  by (simp add: state_of_def)

lemma events_of_simp: "events_of (r, s, tr) = tr"
  by (simp add: events_of_def)

lemma map_of_rooms_less_other:
  "r' \<noteq> r \<Longrightarrow> map_of (rooms_less r u rs) r' = map_of rs r'"
  by (simp add: rooms_less_def update_conv' delete_conv' split: option.splits)

lemma map_of_rooms_less_same:
  "map_of rs r = Some c \<Longrightarrow>
   map_of (rooms_less r u rs) r =
     (if dict_in u c then (if AList.delete u c = [] then None else Some (AList.delete u c))
      else Some c)"
  by (simp add: rooms_less_def update_conv' delete_conv')

lemma rooms_less_None: "map_of rs r = None \<Longrightarrow> rooms_less r u rs = rs"
  by (simp add: rooms_less_def)

lemma rooms_less_not_in: "map_of rs r = Some c \<Longrightarrow> \<not> dict_in u c \<Longrightarrow> rooms_less r u rs = rs"
  by (simp add: rooms_less_def)

lemma dict_in_delete: "dict_in k (AList.delete k' d) \<longleftrightarrow> k \<noteq> k' \<and> dict_in k d"
  by (auto simp: dict_in_map_of delete_conv')

lemma rooms_less_idem: "rooms_less r u (rooms_less r u rs) = rooms_less r u rs"
proof (cases "map_of rs r")
  case None
  then show ?thesis by (simp add: rooms_less_None)
next
  case (Some c)
  show ?thesis
  proof (cases "dict_in u c")
    case False
    with Some show ?thesis by (simp add: rooms_less_not_in)
  next
    case True
    show ?thesis
    proof (cases "AList.delete u c = []")
      case e: True
      from Some True e have "map_of (rooms_less r u rs) r = None"
        by (simp add: map_of_rooms_less_same)
      then show ?thesis by (rule rooms_less_None)
    next
      case ne: False
      from Some True ne have "map_of (rooms_less r u rs) r = Some (AList.delete u c)"
        by (simp add: map_of_rooms_less_same)
      moreover have "\<not> dict_in u (AList.delete u c)"
        by (simp add: dict_in_delete)
      ultimately show ?thesis by (rule rooms_less_not_in)
    qed
  qed
qed

lemma room_members_not_in:
  "u \<notin> set (room_members r s) \<Longrightarrow> rooms_less r u (rooms s) = rooms s"
  by (cases "map_of (rooms s) r")
     (simp_all add: room_members_def rooms_less_None rooms_less_not_in dict_in_def)

lemma disconnect_each_eq: "disconnect_each r us s = (Inr (), leave_all r us s, [])"
proof (induction us arbitrary: s)
  case Nil
  show ?case by simp
next
  case (Cons u us)
  obtain s' where d: "disconnect r u s = (Inr (), s', [])"
    by (simp add: disconnect_eq)
  then have "state_of (disconnect r u s) = s'"
    by (simp add: state_of_simp)
  with d show ?case
    by (simp add: Cons.IH)
qed

lemma users_disconnect: "users (state_of (disconnect r u s)) = AList.delete u (users s)"
  by (simp add: disconnect_eq state_of_simp)

lemma rooms_disconnect: "rooms (state_of (disconnect r u s)) = rooms_less r u (rooms s)"
  by (simp add: disconnect_eq state_of_simp)

lemma room_members_disconnect_same:
  "room_members r (state_of (disconnect r u s)) = removeAll u (room_members r s)"
proof (cases "map_of (rooms s) r")
  case None
  then show ?thesis
    by (simp add: room_members_def rooms_disconnect rooms_less_None)
next
  case (Some c)
  have k: "map fst (AList.delete u c) = removeAll u (map fst c)"
    by (rule delete_keys)
  show ?thesis
  proof (cases "dict_in u c")
    case False
    with Some show ?thesis
      by (simp add: room_members_def rooms_disconnect rooms_less_not_in dict_in_def)
  next
    case True
    show ?thesis
    proof (cases "AList.delete u c = []")
      case e: True
      with k have "removeAll u (map fst c) = []" by simp
      with Some True e show ?thesis
        by (simp add: room_members_def rooms_disconnect map_of_rooms_less_same)
    next
      case ne: False
      with Some True k show ?thesis
        by (simp add: room_members_def rooms_disconnect map_of_rooms_less_same)
    qed
  qed
qed

lemma room_members_disconnect_other:
  "r' \<noteq> r \<Longrightarrow> room_members r' (state_of (disconnect r u s)) = room_members r' s"
  by (simp add: room_members_def rooms_disconnect map_of_rooms_less_other)

lemma map_of_rooms_disconnect_other:
  "r' \<noteq> r \<Longrightarrow> map_of (rooms (state_of (disconnect r u s))) r' = map_of (rooms s) r'"
  by (simp add: rooms_disconnect map_of_rooms_less_other)

lemma filter_delete:
  "filter (\<lambda>(k, v). k \<notin> set us) (AList.delete u xs) = filter (\<lambda>(k, v). k \<notin> set (u # us)) xs"
  by (induction xs) auto

lemma filter_removeAll:
  "filter (\<lambda>k. k \<notin> set us) (removeAll u xs) = filter (\<lambda>k. k \<notin> set (u # us)) xs"
  by (induction xs) auto

lemma users_leave_all:
  "users (leave_all r us s) = filter (\<lambda>(k, v). k \<notin> set us) (users s)"
proof (induction us arbitrary: s)
  case Nil
  show ?case by simp
next
  case (Cons u us)
  have "filter (\<lambda>(k, v). k \<notin> set us) (AList.delete u (users s))
        = filter (\<lambda>(k, v). k \<notin> set (u # us)) (users s)"
    by (rule filter_delete)
  then show ?case
    by (simp add: Cons.IH users_disconnect)
qed

lemma room_members_leave_all:
  "room_members r (leave_all r us s) = filter (\<lambda>k. k \<notin> set us) (room_members r s)"
proof (induction us arbitrary: s)
  case Nil
  show ?case by simp
next
  case (Cons u us)
  have "filter (\<lambda>k. k \<notin> set us) (removeAll u (room_members r s))
        = filter (\<lambda>k. k \<notin> set (u # us)) (room_members r s)"
    by (rule filter_removeAll)
  then show ?case
    by (simp add: Cons.IH room_members_disconnect_same)
qed

lemma map_of_rooms_leave_all_other:
  "r' \<noteq> r \<Longrightarrow> map_of (rooms (leave_all r us s)) r' = map_of (rooms s) r'"
  by (induction us arbitrary: s) (simp_all add: map_of_rooms_disconnect_other)

lemma live_append: "live (xs @ ys) = live xs @ live ys"
  by (induction xs rule: live.induct) simp_all

lemma live_map_Some: "live (map Some conns) = conns"
  by (induction conns) simp_all

lemma during_quiet: "concat others = [] \<Longrightarrow> during others = []"
  by (cases others) (simp_all add: during_def)

lemma tl_quiet: "concat others = [] \<Longrightarrow> concat (tl others) = []"
  by (cases others) simp_all

lemma during_subset: "set (during others) \<subseteq> set (concat others)"
  by (cases others) (simp_all add: during_def)

lemma tl_subset: "set (concat (tl others)) \<subseteq> set (concat others)"
  by (cases others) simp_all

lemma failed_recipients_Cons:
  "failed_recipients fails ex ((u, w) # conns) =
     (if Some u \<noteq> ex \<and> fails w then u # failed_recipients fails ex conns
      else failed_recipients fails ex conns)"
  by (simp add: failed_recipients_def)

lemma broadcast_attempts_Cons:
  "broadcast_attempts fails m ex ((u, w) # conns) =
     (if Some u \<noteq> ex then
        (if fails w then Lost w m else Sent w m) # broadcast_attempts fails m ex conns
      else broadcast_attempts fails m ex conns)"
  by (simp add: broadcast_attempts_def)

text \<open>When nobody else acts, the loop goes once through the room as it stands.\<close>

lemma live_loop_quiet:
  "concat others = [] \<Longrightarrow> length (live (passed @ ahead)) = used \<Longrightarrow>
   length (live ahead) \<le> remaining \<Longrightarrow>
   live_loop fails m ex r used remaining others passed ahead s dis tr =
     (Inr (dis @ failed_recipients fails ex (live ahead)), s,
      tr @ broadcast_attempts fails m ex (live ahead))"
proof (induction fails m ex r used remaining others passed ahead s dis tr
    rule: live_loop.induct)
  case (1 fails m ex r used remaining others passed s dis tr)
  then show ?case
    by (simp add: failed_recipients_def broadcast_attempts_def)
next
  case (2 fails m ex r used remaining others passed ahead s dis tr)
  then show ?case
    by (simp add: live_append)
next
  case (3 fails m ex r used others passed e ahead s dis tr)
  then show ?case by simp
next
  case (4 fails m ex r used remaining others passed u w ahead s dis tr)
  from "4.prems" have q: "during others = []" and t: "concat (tl others) = []"
    by (simp_all add: during_quiet tl_quiet)
  from "4.prems" have sz: "length (live (passed @ Some (u, w) # ahead)) = used"
    and sz': "length (live ((passed @ [Some (u, w)]) @ ahead)) = used"
    and rem: "length (live ahead) \<le> remaining"
    by (simp_all add: live_append)
  show ?case
  proof (cases "Some u = ex")
    case True
    with sz have "live_loop fails m ex r used remaining others (passed @ [Some (u, w)]) ahead s
        dis tr =
      (Inr (dis @ failed_recipients fails ex (live ahead)), s,
       tr @ broadcast_attempts fails m ex (live ahead))"
      using "4.IH"(1) "4.prems"(1) sz' rem by simp
    with True sz show ?thesis
      by (simp add: failed_recipients_Cons broadcast_attempts_Cons)
  next
    case False
    have tr: "track_all r (during others) (passed @ [Some (u, w)], ahead)
        = (passed @ [Some (u, w)], ahead)"
      by (simp add: q)
    from False sz have "live_loop fails m ex r used remaining (tl others)
        (passed @ [Some (u, w)]) ahead (mutate_all (during others) s)
        (if fails w then dis @ [u] else dis)
        (tr @ [if fails w then Lost w m else Sent w m]) =
      (Inr ((if fails w then dis @ [u] else dis) @ failed_recipients fails ex (live ahead)),
       mutate_all (during others) s,
       (tr @ [if fails w then Lost w m else Sent w m])
         @ broadcast_attempts fails m ex (live ahead))"
      using "4.IH"(2) [OF _ False tr [symmetric] t sz' rem] by simp
    with False sz tr show ?thesis
      by (simp add: q failed_recipients_Cons broadcast_attempts_Cons)
  qed
qed

lemma broadcast_to_room_None:
  "map_of (rooms s) r = None \<Longrightarrow> broadcast_to_room fails others r m ex s = (Inr (), s, [])"
  by (simp add: broadcast_to_room_def dict_in_None)

lemma broadcast_to_room_quiet:
  "concat others = [] \<Longrightarrow> map_of (rooms s) r = Some conns \<Longrightarrow>
   broadcast_to_room fails others r m ex s =
     (Inr (), leave_all r (failed_recipients fails ex conns) s, broadcast_attempts fails m ex conns)"
proof -
  assume q: "concat others = []" and c: "map_of (rooms s) r = Some conns"
  have "live_loop fails m ex r (length conns) (length conns) others [] (map Some conns) s [] [] =
      (Inr ([] @ failed_recipients fails ex (live (map Some conns))), s,
       [] @ broadcast_attempts fails m ex (live (map Some conns)))"
    using q by (rule live_loop_quiet) (simp_all add: live_map_Some)
  with c show ?thesis
    by (simp add: broadcast_to_room_def dict_in_Some dict_item_Some run_simps live_map_Some
        disconnect_each_eq)
qed

lemma collect_participants_eq:
  "collect_participants us ids acc =
     Inr (acc @ map (\<lambda>u. participant_entry u (dict_get us u []))
                  (filter (\<lambda>u. dict_in u us) ids))"
proof (induction ids arbitrary: acc)
  case Nil
  show ?case by simp
next
  case (Cons u ids)
  show ?case
  proof (cases "map_of us u")
    case None
    then show ?thesis
      by (simp add: Cons.IH dict_in_None)
  next
    case (Some info)
    then show ?thesis
      by (simp add: Cons.IH dict_in_Some dict_item_Some dict_get_def)
  qed
qed

lemma get_room_participants_eq:
  "get_room_participants room_id s =
     Inr (map (\<lambda>u. participant_entry u (dict_get (users s) u []))
            (filter (\<lambda>u. dict_in u (users s)) (room_members room_id s)))"
proof (cases "map_of (rooms s) room_id")
  case None
  then show ?thesis
    by (simp add: get_room_participants_def dict_in_None room_members_def)
next
  case (Some conns)
  then show ?thesis
    by (simp add: get_room_participants_def dict_in_Some dict_item_Some room_members_def
        collect_participants_eq)
qed

lemma send_to_user_no_room:
  "map_of (rooms s) r = None \<Longrightarrow> send_to_user fails r tgt m s = (Inr (), s, [])"
  by (simp add: send_to_user_def dict_in_None)

lemma send_to_user_no_target:
  "map_of (rooms s) r = Some conns \<Longrightarrow> map_of conns t = None \<Longrightarrow>
   send_to_user fails r (JStr t) m s = (Inr (), s, [])"
  by (simp add: send_to_user_def dict_in_Some dict_in_None dict_item_Some run_simps)

lemma send_to_user_target:
  "map_of (rooms s) r = Some conns \<Longrightarrow> map_of conns t = Some w \<Longrightarrow>
   send_to_user fails r (JStr t) m s =
     (if fails w then (Inr (), state_of (disconnect r t s), [Lost w m])
      else (Inr (), s, [Sent w m]))"
  by (simp add: send_to_user_def dict_in_Some dict_item_Some run_simps disconnect_eq
      state_of_simp)

lemma send_to_user_not_str:
  "map_of (rooms s) r = Some conns \<Longrightarrow> \<forall>t. tgt \<noteq> JStr t \<Longrightarrow>
   send_to_user fails r tgt m s =
     ((if is_object tgt \<or> (\<exists>xs. tgt = JArr xs) then Inl TypeError else Inr ()), s, [])"
  by (cases tgt) (simp_all add: send_to_user_def dict_in_Some dict_item_Some run_simps)

lemma leave_all_append: "leave_all r (us @ vs) s = leave_all r vs (leave_all r us s)"
  by (induction us arbitrary: s) simp_all

lemma state_of_then_do:
  "state_of (then_do m f) =
     (case fst m of Inl e \<Rightarrow> state_of m | Inr x \<Rightarrow> state_of (f x (state_of m)))"
  by (cases m; cases "fst m")
     (auto simp: then_do_def state_of_def split: prod.splits)

section \<open>Facts about joining and about whole sessions\<close>

lemma add_participant_rooms:
  "(let s1 = (if \<not> dict_in r (rooms s) then s\<lparr>rooms := dict_set r [] (rooms s)\<rparr> else s) in
    then_do (lift_e (dict_item r (rooms s1)) s1) f)
   = (case f (dict_get (rooms s) r [])
              (s\<lparr>rooms := (if dict_in r (rooms s) then rooms s else AList.update r [] (rooms s))\<rparr>)
      of (res, s', tr') \<Rightarrow> (res, s', tr'))"
proof (cases "map_of (rooms s) r")
  case None
  then show ?thesis
    by (simp add: dict_in_None dict_set_def dict_item_def update_conv' dict_get_def run_simps
        Let_def split: prod.splits)
next
  case (Some conns)
  then show ?thesis
    by (simp add: dict_in_Some dict_item_Some dict_get_def run_simps Let_def split: prod.splits)
qed

lemma add_participant_obj:
  "add_participant ws r u (JObj info) s =
     (Inr (),
      \<lparr>rooms = AList.update r (AList.update u ws (dict_get (rooms s) r [])) (rooms s),
       users = AList.update u (AList.update ''room_id'' (JStr r) (dict_merge [] info)) (users s)\<rparr>,
      [])"
  unfolding add_participant_def add_participant_rooms
  by (simp add: dict_set_def Let_def)

lemma add_participant_not_obj:
  "\<not> is_object user_info \<Longrightarrow>
   add_participant ws r u user_info s =
     (Inl TypeError,
      s\<lparr>rooms := AList.update r (AList.update u ws (dict_get (rooms s) r [])) (rooms s)\<rparr>,
      [])"
  unfolding add_participant_def add_participant_rooms
  by (cases user_info) (simp_all add: dict_set_def Let_def)

lemma rooms_add_participant:
  "rooms (state_of (add_participant ws r u info s)) =
     AList.update r (AList.update u ws (dict_get (rooms s) r [])) (rooms s)"
  by (cases "is_object info"; cases info)
     (simp_all add: add_participant_obj add_participant_not_obj state_of_simp)

lemma users_add_participant:
  "users (state_of (add_participant ws r u info s)) =
     (case info of
        JObj d \<Rightarrow> AList.update u (AList.update ''room_id'' (JStr r) (dict_merge [] d)) (users s)
      | _ \<Rightarrow> users s)"
  by (cases "is_object info"; cases info)
     (simp_all add: add_participant_obj add_participant_not_obj state_of_simp)

lemma members_dict_get: "map fst (dict_get (rooms s) r []) = room_members r s"
  by (simp add: dict_get_def room_members_def split: option.splits)

lemma room_members_add_participant:
  "room_members r' (state_of (add_participant ws r u info s)) =
     (if r' = r then map fst (AList.update u ws (dict_get (rooms s) r []))
      else room_members r' s)"
  by (simp add: room_members_def rooms_add_participant update_conv')

lemma set_room_members_add_participant:
  "set (room_members r' (state_of (add_participant ws r u info s))) =
     (if r' = r then insert u (set (room_members r s)) else set (room_members r' s))"
proof -
  have "fst ` set (AList.update u ws (dict_get (rooms s) r [])) =
        {u} \<union> fst ` set (dict_get (rooms s) r [])"
    by (rule dom_update)
  moreover have "fst ` set (dict_get (rooms s) r []) = set (room_members r s)"
    using members_dict_get [of s r] by (metis set_map)
  ultimately show ?thesis
    by (simp add: room_members_add_participant)
qed

lemma update_not_Nil: "AList.update k v al \<noteq> []"
  by (cases al) simp_all

lemma no_empty_room_add_participant:
  "no_empty_room s \<Longrightarrow> no_empty_room (state_of (add_participant ws r u info s))"
  unfolding no_empty_room_def
  by (simp add: rooms_add_participant update_conv' update_not_Nil)

lemma no_empty_room_disconnect:
  "no_empty_room s \<Longrightarrow> no_empty_room (state_of (disconnect r u s))"
  unfolding no_empty_room_def
proof (intro allI impI)
  fix r' conns
  assume inv: "\<forall>r conns. map_of (rooms s) r = Some conns \<longrightarrow> conns \<noteq> []"
    and m: "map_of (rooms (state_of (disconnect r u s))) r' = Some conns"
  show "conns \<noteq> []"
  proof (cases "r' = r")
    case False
    with m inv show ?thesis
      by (simp add: rooms_disconnect map_of_rooms_less_other)
  next
    case True
    show ?thesis
    proof (cases "map_of (rooms s) r")
      case None
      with m True show ?thesis
        by (simp add: rooms_disconnect rooms_less_None)
    next
      case (Some c)
      with inv have "c \<noteq> []" by simp
      with m True Some show ?thesis
        by (simp add: rooms_disconnect map_of_rooms_less_same split: if_splits)
    qed
  qed
qed

lemma users_bound_add_participant:
  "users_bound s \<Longrightarrow> users_bound (state_of (add_participant ws r u info s))"
  unfolding users_bound_def
proof (intro allI impI)
  fix u' info'
  assume inv: "\<forall>u info. map_of (users s) u = Some info \<longrightarrow>
      (\<exists>r. map_of info ''room_id'' = Some (JStr r) \<and> u \<in> set (room_members r s))"
    and m: "map_of (users (state_of (add_participant ws r u info s))) u' = Some info'"
  let ?s' = "state_of (add_participant ws r u info s)"
  have mono: "\<And>r0. u' \<in> set (room_members r0 s) \<Longrightarrow> u' \<in> set (room_members r0 ?s')"
    by (auto simp: set_room_members_add_participant)
  have old: "map_of (users s) u' = Some info' \<Longrightarrow>
      \<exists>r0. map_of info' ''room_id'' = Some (JStr r0) \<and> u' \<in> set (room_members r0 ?s')"
    using inv mono by blast
  show "\<exists>r0. map_of info' ''room_id'' = Some (JStr r0) \<and> u' \<in> set (room_members r0 ?s')"
  proof (cases "is_object info \<and> u' = u")
    case False
    with m have "map_of (users s) u' = Some info'"
      by (cases info) (simp_all add: users_add_participant update_conv')
    then show ?thesis by (rule old)
  next
    case True
    then obtain d where d: "info = JObj d" by (cases info) simp_all
    with m True have "info' = AList.update ''room_id'' (JStr r) (dict_merge [] d)"
      by (simp add: users_add_participant update_conv')
    then have "map_of info' ''room_id'' = Some (JStr r)"
      by (simp add: update_conv')
    moreover from True have "u' \<in> set (room_members r ?s')"
      by (simp add: set_room_members_add_participant)
    ultimately show ?thesis by blast
  qed
qed

lemma users_bound_disconnect:
  "users_bound s \<Longrightarrow> users_bound (state_of (disconnect r u s))"
  unfolding users_bound_def
proof (intro allI impI)
  fix u' info'
  assume inv: "\<forall>u info. map_of (users s) u = Some info \<longrightarrow>
      (\<exists>r. map_of info ''room_id'' = Some (JStr r) \<and> u \<in> set (room_members r s))"
    and m: "map_of (users (state_of (disconnect r u s))) u' = Some info'"
  from m have ne: "u' \<noteq> u" and old: "map_of (users s) u' = Some info'"
    by (auto simp: users_disconnect delete_conv' split: if_splits)
  from inv old obtain r0 where r0: "map_of info' ''room_id'' = Some (JStr r0)"
    and mem: "u' \<in> set (room_members r0 s)" by blast
  from ne mem have "u' \<in> set (room_members r0 (state_of (disconnect r u s)))"
    by (cases "r0 = r")
       (simp_all add: room_members_disconnect_same room_members_disconnect_other)
  with r0 show "\<exists>r0. map_of info' ''room_id'' = Some (JStr r0) \<and>
      u' \<in> set (room_members r0 (state_of (disconnect r u s)))" by blast
qed

lemma keys_distinct_add_participant:
  "keys_distinct s \<Longrightarrow> keys_distinct (state_of (add_participant ws r u info s))"
proof -
  assume k: "keys_distinct s"
  then have "distinct (map fst (dict_get (rooms s) r []))"
    by (simp add: keys_distinct_def members_dict_get)
  then have "distinct (map fst (AList.update u ws (dict_get (rooms s) r [])))"
    by (rule distinct_update)
  with k show ?thesis
    unfolding keys_distinct_def
    by (cases info)
       (simp_all add: rooms_add_participant users_add_participant room_members_add_participant
          distinct_update)
qed

lemma keys_distinct_disconnect:
  "keys_distinct s \<Longrightarrow> keys_distinct (state_of (disconnect r u s))"
proof -
  assume k: "keys_distinct s"
  have "distinct (map fst (rooms_less r u (rooms s)))"
    using k unfolding keys_distinct_def rooms_less_def
    by (simp add: distinct_delete distinct_update split: option.splits)
  moreover have "distinct (room_members r' (state_of (disconnect r u s)))" for r'
    using k unfolding keys_distinct_def
    by (cases "r' = r")
       (simp_all add: room_members_disconnect_same room_members_disconnect_other
          distinct_removeAll)
  ultimately show ?thesis
    using k unfolding keys_distinct_def
    by (simp add: rooms_disconnect users_disconnect distinct_delete)
qed


section \<open>How the registry evolves\<close>

lemma mutate_all_append: "mutate_all (ms @ ns) s = mutate_all ns (mutate_all ms s)"
  by (induction ms arbitrary: s) simp_all

lemma evolves_refl: "evolves A s s"
proof -
  have "set [] \<subseteq> A \<and> s = mutate_all [] s" by simp
  then show ?thesis unfolding evolves_def by (rule exI)
qed

lemma evolves_mutate_all: "set ms \<subseteq> A \<Longrightarrow> evolves A s (mutate_all ms s)"
proof -
  assume "set ms \<subseteq> A"
  then have "set ms \<subseteq> A \<and> mutate_all ms s = mutate_all ms s" by simp
  then show ?thesis unfolding evolves_def by (rule exI)
qed

lemma evolves_trans: "evolves A s s1 \<Longrightarrow> evolves A s1 s2 \<Longrightarrow> evolves A s s2"
proof -
  assume "evolves A s s1" and "evolves A s1 s2"
  then obtain ms ns where m: "set ms \<subseteq> A" "s1 = mutate_all ms s"
    and n: "set ns \<subseteq> A" "s2 = mutate_all ns s1"
    unfolding evolves_def by blast
  then have "set (ms @ ns) \<subseteq> A \<and> s2 = mutate_all (ms @ ns) s"
    by (simp add: mutate_all_append)
  then show ?thesis unfolding evolves_def by (rule exI)
qed

lemma evolves_mono: "A \<subseteq> B \<Longrightarrow> evolves A s s' \<Longrightarrow> evolves B s s'"
proof -
  assume ab: "A \<subseteq> B" and "evolves A s s'"
  then obtain ms where "set ms \<subseteq> A" and e: "s' = mutate_all ms s"
    unfolding evolves_def by blast
  with ab have "set ms \<subseteq> B" by simp
  with e have "set ms \<subseteq> B \<and> s' = mutate_all ms s" by simp
  then show ?thesis unfolding evolves_def by (rule exI)
qed

lemma evolves_then:
  "evolves A s s1 \<Longrightarrow> evolves B s1 s2 \<Longrightarrow> evolves (A \<union> B) s s2"
proof -
  assume a: "evolves A s s1" and b: "evolves B s1 s2"
  have 1: "evolves (A \<union> B) s s1" by (rule evolves_mono [OF _ a]) simp
  have 2: "evolves (A \<union> B) s1 s2" by (rule evolves_mono [OF _ b]) simp
  from 1 2 show ?thesis by (rule evolves_trans)
qed

lemma leave_all_mutate_all: "leave_all r us s = mutate_all (map (Leaves r) us) s"
  by (induction us arbitrary: s) simp_all

lemma evolves_leave_all: "evolves (leaves_of r) s (leave_all r us s)"
proof -
  have "set (map (Leaves r) us) \<subseteq> leaves_of r"
    unfolding leaves_of_def by (induction us) simp_all
  then show ?thesis
    unfolding leave_all_mutate_all by (rule evolves_mutate_all)
qed

lemma evolves_disconnect: "evolves (leaves_of r) s (state_of (disconnect r u s))"
proof -
  have "state_of (disconnect r u s) = leave_all r [u] s" by simp
  then show ?thesis using evolves_leave_all [of r s "[u]"] by simp
qed

lemma during_acts: "set (during others) \<subseteq> acts others"
  unfolding acts_def by (rule during_subset)

lemma tl_acts: "acts (tl others) \<subseteq> acts others"
  unfolding acts_def by (rule tl_subset)

lemma evolves_live_loop:
  "evolves (acts others) s
     (state_of (live_loop fails m ex r used remaining others passed ahead s dis tr))"
proof (induction fails m ex r used remaining others passed ahead s dis tr
    rule: live_loop.induct)
  case (1 fails m ex r used remaining others passed s dis tr)
  show ?case by (simp add: state_of_simp evolves_refl)
next
  case (2 fails m ex r used remaining others passed ahead s dis tr)
  then show ?case by simp
next
  case (3 fails m ex r used others passed e ahead s dis tr)
  show ?case by (simp add: state_of_simp evolves_refl)
next
  case (4 fails m ex r used remaining others passed u w ahead s dis tr)
  show ?case
  proof (cases "length (live (passed @ Some (u, w) # ahead)) \<noteq> used")
    case True
    then show ?thesis by (simp add: state_of_simp evolves_refl)
  next
    case sz: False
    show ?thesis
    proof (cases "Some u = ex")
      case True
      with sz "4.IH"(1) show ?thesis by simp
    next
      case False
      obtain p' a' where t: "track_all r (during others) (passed @ [Some (u, w)], ahead) = (p', a')"
        by (cases "track_all r (during others) (passed @ [Some (u, w)], ahead)") auto
      let ?s1 = "mutate_all (during others) s"
      let ?res = "live_loop fails m ex r used remaining (tl others) p' a' ?s1
          (if fails w then dis @ [u] else dis) (tr @ [if fails w then Lost w m else Sent w m])"
      have "evolves (acts (tl others)) ?s1 (state_of ?res)"
        using "4.IH"(2) [OF sz False t [symmetric]] .
      then have b: "evolves (acts others) ?s1 (state_of ?res)"
        by (rule evolves_mono [OF tl_acts])
      have a: "evolves (acts others) s ?s1"
        using during_acts by (rule evolves_mutate_all)
      from a b have "evolves (acts others) s (state_of ?res)"
        by (rule evolves_trans)
      with sz False t show ?thesis by simp
    qed
  qed
qed

lemma evolves_broadcast:
  "evolves (acts others \<union> leaves_of r) s
     (state_of (broadcast_to_room fails others r m ex s))"
proof (cases "map_of (rooms s) r")
  case None
  then show ?thesis
    by (simp add: broadcast_to_room_None state_of_simp evolves_refl)
next
  case (Some conns)
  let ?loop = "live_loop fails m ex r (length conns) (length conns) others [] (map Some conns) s
      [] []"
  obtain res s1 tr1 where l: "?loop = (res, s1, tr1)"
    by (cases ?loop) auto
  have a: "evolves (acts others) s s1"
    using evolves_live_loop [of others s fails m ex r "length conns" "length conns" "[]"
        "map Some conns" "[]" "[]"] l
    by (simp add: state_of_simp)
  show ?thesis
  proof (cases res)
    case (Inl e)
    with Some l have "state_of (broadcast_to_room fails others r m ex s) = s1"
      by (simp add: broadcast_to_room_def dict_in_Some dict_item_Some run_simps state_of_simp)
    moreover have "evolves (acts others \<union> leaves_of r) s s1"
      by (rule evolves_mono [OF _ a]) simp
    ultimately show ?thesis by simp
  next
    case (Inr dis)
    with Some l have "state_of (broadcast_to_room fails others r m ex s) = leave_all r dis s1"
      by (simp add: broadcast_to_room_def dict_in_Some dict_item_Some run_simps state_of_simp
          disconnect_each_eq)
    moreover have "evolves (acts others \<union> leaves_of r) s (leave_all r dis s1)"
      using a evolves_leave_all by (rule evolves_then)
    ultimately show ?thesis by simp
  qed
qed

lemma evolves_send_to_user:
  "evolves (leaves_of r) s (state_of (send_to_user fails r tgt m s))"
proof (cases "map_of (rooms s) r")
  case None
  then show ?thesis
    by (simp add: send_to_user_no_room state_of_simp evolves_refl)
next
  case (Some conns)
  show ?thesis
  proof (cases "\<exists>t. tgt = JStr t")
    case False
    then have "\<forall>t. tgt \<noteq> JStr t" by simp
    with Some show ?thesis
      by (simp add: send_to_user_not_str state_of_simp evolves_refl)
  next
    case True
    then obtain t where t: "tgt = JStr t" by blast
    show ?thesis
    proof (cases "map_of conns t")
      case None
      with Some t show ?thesis
        by (simp add: send_to_user_no_target state_of_simp evolves_refl)
    next
      case w: (Some w)
      with Some t show ?thesis
        by (simp add: send_to_user_target state_of_simp evolves_refl evolves_disconnect)
    qed
  qed
qed

lemma evolves_widen_leaves:
  "evolves (leaves_of r) s s' \<Longrightarrow> evolves (E \<union> leaves_of r) s s'"
proof -
  assume a: "evolves (leaves_of r) s s'"
  show ?thesis by (rule evolves_mono [OF _ a]) simp
qed

lemma evolves_widen_acts:
  "A \<subseteq> B \<Longrightarrow> evolves (A \<union> leaves_of r) s s' \<Longrightarrow> evolves (B \<union> leaves_of r) s s'"
proof -
  assume ab: "A \<subseteq> B" and a: "evolves (A \<union> leaves_of r) s s'"
  from ab have "A \<union> leaves_of r \<subseteq> B \<union> leaves_of r" by auto
  then show ?thesis using a by (rule evolves_mono)
qed

lemma evolves_signal_step:
  "evolves (acts others \<union> leaves_of r) s
     (state_of (signal_step fails others r u data s))"
  by (cases data)
     (simp_all add: signal_step_def Let_def state_of_simp evolves_refl
        evolves_send_to_user evolves_widen_leaves evolves_broadcast)

lemma during_envs_subset: "acts (during envs) \<subseteq> session_acts envs"
  by (cases envs) (auto simp: during_def acts_def session_acts_def)

lemma tl_envs_subset: "session_acts (tl envs) \<subseteq> session_acts envs"
  by (cases envs) (auto simp: session_acts_def)

lemma evolves_signal_loop:
  "evolves (session_acts envs \<union> leaves_of r) s
     (state_of (signal_loop fails envs r u frames s))"
proof (induction fails envs r u frames s rule: signal_loop.induct)
  case (1 fails envs r u s)
  show ?case by (simp add: state_of_simp evolves_refl)
next
  case (2 fails envs r u rest s)
  show ?case by (simp add: state_of_simp evolves_refl)
next
  case (3 fails envs r u data rest s)
  let ?A = "session_acts envs \<union> leaves_of r"
  obtain res s1 tr where st: "signal_step fails (during envs) r u data s = (res, s1, tr)"
    by (cases "signal_step fails (during envs) r u data s") auto
  have "evolves (acts (during envs) \<union> leaves_of r) s s1"
    using evolves_signal_step [of "during envs" r s fails u data] st
    by (simp add: state_of_simp)
  then have a: "evolves ?A s s1"
    by (rule evolves_widen_acts [OF during_envs_subset])
  show ?case
  proof (cases res)
    case (Inl e)
    with st a show ?thesis by (simp add: state_of_simp)
  next
    case (Inr x)
    obtain res2 s2 tr2 where lp: "signal_loop fails (tl envs) r u rest s1 = (res2, s2, tr2)"
      by (cases "signal_loop fails (tl envs) r u rest s1") auto
    from "3.IH" [OF st [symmetric] Inr refl] lp
    have "evolves (session_acts (tl envs) \<union> leaves_of r) s1 s2"
      by (simp add: state_of_simp)
    then have "evolves ?A s1 s2"
      by (rule evolves_widen_acts [OF tl_envs_subset])
    with a have "evolves ?A s s2" by (rule evolves_trans)
    with st Inr lp show ?thesis by (simp add: state_of_simp)
  qed
qed

lemma cleanup_state:
  "state_of (cleanup fails others r u s) =
     state_of (broadcast_to_room fails others r
       (JObj [(''type'', JStr ''user_left''), (''user_id'', JStr u)]) None
       (state_of (disconnect r u s)))"
  by (simp add: cleanup_def disconnect_eq state_of_then_do state_of_simp)

lemma evolves_cleanup:
  "evolves (acts others \<union> leaves_of r) s (state_of (cleanup fails others r u s))"
proof -
  have "evolves (acts others \<union> leaves_of r) s (state_of (disconnect r u s))"
    using evolves_disconnect by (rule evolves_widen_leaves)
  then show ?thesis
    unfolding cleanup_state using evolves_broadcast by (rule evolves_trans)
qed


lemma handle_init_not_object:
  "\<not> is_object init \<Longrightarrow> handle_init fails others ws r u init s = (Inl AttributeError, s, [])"
  by (cases init) (simp_all add: handle_init_def)

lemma handle_init_not_join:
  "dict_get d ''type'' JNull \<noteq> JStr ''join'' \<Longrightarrow>
   handle_init fails others ws r u (JObj d) s = (Inr (), s, [])"
  by (simp add: handle_init_def)

lemma handle_init_join_bad_info:
  "dict_get d ''type'' JNull = JStr ''join'' \<Longrightarrow>
   \<not> is_object (dict_get d ''user_info'' (JObj [])) \<Longrightarrow>
   handle_init fails others ws r u (JObj d) s =
     (Inl TypeError, state_of (add_participant ws r u (dict_get d ''user_info'' (JObj [])) s), [])"
  by (simp add: handle_init_def Let_def add_participant_not_obj run_simps state_of_simp)

lemma handle_init_join:
  "dict_get d ''type'' JNull = JStr ''join'' \<Longrightarrow>
   dict_get d ''user_info'' (JObj []) = JObj info \<Longrightarrow>
   s1 = state_of (add_participant ws r u (JObj info) s) \<Longrightarrow>
   room_state = JObj [(''type'', JStr ''room_state''),
                      (''participants'',
                       JArr (map (\<lambda>k. participant_entry k (dict_get (users s1) k []))
                               (filter (\<lambda>k. dict_in k (users s1)) (room_members r s1))))] \<Longrightarrow>
   handle_init fails others ws r u (JObj d) s =
     (if fails ws then (Inl SendFailure, s1, [Lost ws room_state])
      else
        (case broadcast_to_room fails others r
                (JObj [(''type'', JStr ''user_joined''), (''user_id'', JStr u),
                       (''user_info'', JObj info)]) (Some u) s1 of
           (res, s2, tr) \<Rightarrow> (res, s2, Sent ws room_state # tr)))"
  by (simp add: handle_init_def Let_def add_participant_obj run_simps state_of_simp
      get_room_participants_eq send_json_def split: prod.splits)


lemma universe: "A \<subseteq> UNIV"
  by simp

lemma evolves_add_participant: "evolves UNIV s (state_of (add_participant ws r u info s))"
proof -
  have "set [Joins ws r u info] \<subseteq> UNIV" by simp
  then have "evolves UNIV s (mutate_all [Joins ws r u info] s)"
    by (rule evolves_mutate_all)
  then show ?thesis by simp
qed

text \<open>Every session is a sequence of registrations and calls of \<^verbatim>\<open>disconnect\<close>.\<close>

lemma evolves_handle_init:
  "evolves UNIV s (state_of (handle_init fails others ws r u init s))"
proof (cases "is_object init")
  case False
  then show ?thesis
    by (simp add: handle_init_not_object state_of_simp evolves_refl)
next
  case True
  then obtain d where d: "init = JObj d" by (cases init) simp_all
  show ?thesis
  proof (cases "dict_get d ''type'' JNull = JStr ''join''")
    case False
    with d show ?thesis
      by (simp add: handle_init_not_join state_of_simp evolves_refl)
  next
    case j: True
    let ?info = "dict_get d ''user_info'' (JObj [])"
    let ?s1 = "state_of (add_participant ws r u ?info s)"
    have a: "evolves UNIV s ?s1" by (rule evolves_add_participant)
    have "evolves UNIV ?s1 (state_of (handle_init fails others ws r u init s))"
    proof (cases "is_object ?info")
      case False
      with j d show ?thesis
        by (simp add: handle_init_join_bad_info state_of_simp evolves_refl)
    next
      case True
      then obtain info where i: "?info = JObj info" by (cases ?info) simp_all
      let ?m = "JObj [(''type'', JStr ''user_joined''), (''user_id'', JStr u),
                      (''user_info'', JObj info)]"
      obtain res s2 tr where b: "broadcast_to_room fails others r ?m (Some u) ?s1 = (res, s2, tr)"
        by (cases "broadcast_to_room fails others r ?m (Some u) ?s1") auto
      have "evolves (acts others \<union> leaves_of r) ?s1 s2"
        using evolves_broadcast [of others r ?s1 fails ?m "Some u"] b by (simp add: state_of_simp)
      then have "evolves UNIV ?s1 s2"
        by (rule evolves_mono [OF universe])
      with b i show ?thesis
        unfolding d
        by (simp add: handle_init_join [OF j i refl refl] state_of_simp evolves_refl)
    qed
    with a show ?thesis by (rule evolves_trans)
  qed
qed

lemma evolves_try_body:
  "evolves UNIV s (state_of (try_body fails envs ws r u frames s))"
proof (cases frames)
  case Nil
  then show ?thesis by (simp add: try_body_def state_of_simp evolves_refl)
next
  case (Cons f rest)
  show ?thesis
  proof (cases f)
    case Malformed
    with Cons show ?thesis by (simp add: try_body_def state_of_simp evolves_refl)
  next
    case (Json init)
    let ?s1 = "state_of (handle_init fails (during envs) ws r u init s)"
    have a: "evolves UNIV s ?s1" by (rule evolves_handle_init)
    have "evolves (session_acts (tl envs) \<union> leaves_of r) ?s1
        (state_of (signal_loop fails (tl envs) r u rest ?s1))"
      by (rule evolves_signal_loop)
    then have "evolves UNIV ?s1 (state_of (signal_loop fails (tl envs) r u rest ?s1))"
      by (rule evolves_mono [OF universe])
    with a have "evolves UNIV s (state_of (signal_loop fails (tl envs) r u rest ?s1))"
      by (rule evolves_trans)
    with a Cons Json show ?thesis
      by (simp add: try_body_def state_of_then_do split: sum.splits)
  qed
qed

lemma websocket_endpoint_state:
  "state_of (websocket_endpoint fails envs final ws r u frames s) =
     state_of (cleanup fails final r u (state_of (try_body fails envs ws r u frames s)))"
  by (cases "try_body fails envs ws r u frames s")
     (simp add: websocket_endpoint_def state_of_then_do state_of_simp)

lemma evolves_websocket_endpoint:
  "evolves UNIV s (state_of (websocket_endpoint fails envs final ws r u frames s))"
proof -
  let ?s1 = "state_of (try_body fails envs ws r u frames s)"
  have a: "evolves UNIV s ?s1" by (rule evolves_try_body)
  have "evolves (acts final \<union> leaves_of r) ?s1 (state_of (cleanup fails final r u ?s1))"
    by (rule evolves_cleanup)
  then have "evolves UNIV ?s1 (state_of (cleanup fails final r u ?s1))"
    by (rule evolves_mono [OF universe])
  with a show ?thesis
    unfolding websocket_endpoint_state by (rule evolves_trans)
qed

text \<open>
  A property that registering and \<^verbatim>\<open>disconnect\<close> keep is kept by every step, hence
  by every history.
\<close>

lemma kept_mutate_all:
  assumes d: "\<And>r u s. P s \<Longrightarrow> P (state_of (disconnect r u s))"
    and a: "\<And>ws r u info s. P s \<Longrightarrow> P (state_of (add_participant ws r u info s))"
  shows "P s \<Longrightarrow> P (mutate_all ms s)"
proof (induction ms arbitrary: s)
  case Nil
  then show ?case by simp
next
  case (Cons m ms)
  from Cons.prems have "P (mutate m s)"
    by (cases m) (simp_all add: d a)
  then show ?case by (simp add: Cons.IH)
qed

lemma kept_evolves:
  assumes d: "\<And>r u s. P s \<Longrightarrow> P (state_of (disconnect r u s))"
    and a: "\<And>ws r u info s. P s \<Longrightarrow> P (state_of (add_participant ws r u info s))"
    and e: "evolves A s s'" and s: "P s"
  shows "P s'"
proof -
  from e obtain ms where "s' = mutate_all ms s"
    unfolding evolves_def by blast
  moreover have "P (mutate_all ms s)"
    using d a s by (rule kept_mutate_all)
  ultimately show ?thesis by simp
qed

lemma kept_apply_op:
  assumes d: "\<And>r u s. P s \<Longrightarrow> P (state_of (disconnect r u s))"
    and a: "\<And>ws r u info s. P s \<Longrightarrow> P (state_of (add_participant ws r u info s))"
    and s: "P s"
  shows "P (apply_op x s)"
proof (cases x)
  case (Join ws r u info)
  with a s show ?thesis by simp
next
  case (Leave r u)
  with d s show ?thesis by simp
next
  case (Broadcast dead others r m ex)
  have "evolves (acts others \<union> leaves_of r) s (apply_op x s)"
    unfolding Broadcast by (simp add: evolves_broadcast)
  with d a show ?thesis using s by (rule kept_evolves)
next
  case (Unicast dead r t m)
  have "evolves (leaves_of r) s (apply_op x s)"
    unfolding Unicast by (simp add: evolves_send_to_user)
  with d a show ?thesis using s by (rule kept_evolves)
next
  case (Session dead envs final ws r u frames)
  have "evolves UNIV s (apply_op x s)"
    unfolding Session by (simp add: evolves_websocket_endpoint)
  with d a show ?thesis using s by (rule kept_evolves)
qed

lemma kept_run_ops:
  assumes d: "\<And>r u s. P s \<Longrightarrow> P (state_of (disconnect r u s))"
    and a: "\<And>ws r u info s. P s \<Longrightarrow> P (state_of (add_participant ws r u info s))"
  shows "P s \<Longrightarrow> P (run_ops xs s)"
proof (induction xs arbitrary: s)
  case Nil
  then show ?case by simp
next
  case (Cons x xs)
  have "P (apply_op x s)"
    using d a Cons.prems by (rule kept_apply_op)
  then show ?case by (simp add: Cons.IH)
qed

lemma no_empty_room_run_ops: "no_empty_room (run_ops xs empty_registry)"
proof (rule kept_run_ops)
  show "no_empty_room empty_registry"
    by (simp add: no_empty_room_def empty_registry_def)
qed (simp_all add: no_empty_room_disconnect no_empty_room_add_participant)

lemma users_bound_run_ops: "users_bound (run_ops xs empty_registry)"
proof (rule kept_run_ops)
  show "users_bound empty_registry"
    by (simp add: users_bound_def empty_registry_def)
qed (simp_all add: users_bound_disconnect users_bound_add_participant)

lemma keys_distinct_run_ops: "keys_distinct (run_ops xs empty_registry)"
proof (rule kept_run_ops)
  show "keys_distinct empty_registry"
    by (simp add: keys_distinct_def empty_registry_def room_members_def)
qed (simp_all add: keys_distinct_disconnect keys_distinct_add_participant)

lemma update_append_new: "k \<notin> fst ` set al \<Longrightarrow> AList.update k v al = al @ [(k, v)]"
  by (induction al) auto

lemma dict_merge_Cons: "dict_merge base ((k, v) # extra) = dict_merge (AList.update k v base) extra"
  by (simp add: dict_merge_def dict_set_def)

lemma dict_merge_Nil: "dict_merge base [] = base"
  by (simp add: dict_merge_def)

lemma dict_merge_distinct:
  "distinct (map fst (base @ extra)) \<Longrightarrow> dict_merge base extra = base @ extra"
proof (induction extra arbitrary: base)
  case Nil
  show ?case by (simp add: dict_merge_Nil)
next
  case (Cons p extra)
  obtain k v where p: "p = (k, v)" by (cases p)
  from Cons.prems p have n: "k \<notin> fst ` set base" by auto
  from Cons.prems p have "distinct (map fst ((base @ [(k, v)]) @ extra))" by auto
  then have "dict_merge (base @ [(k, v)]) extra = (base @ [(k, v)]) @ extra"
    by (rule Cons.IH)
  with n p show ?case
    by (simp add: dict_merge_Cons update_append_new)
qed

lemma dict_merge_empty: "distinct (map fst info) \<Longrightarrow> dict_merge [] info = info"
  using dict_merge_distinct [of "[]" info] by simp

lemma map_of_dict_merge:
  "distinct (map fst extra) \<Longrightarrow>
   map_of (dict_merge base extra) k =
     (case map_of extra k of Some v \<Rightarrow> Some v | None \<Rightarrow> map_of base k)"
proof (induction extra arbitrary: base)
  case Nil
  show ?case by (simp add: dict_merge_Nil)
next
  case (Cons p extra)
  obtain k' v' where p: "p = (k', v')" by (cases p)
  from Cons.prems p have d: "distinct (map fst extra)" and n: "map_of extra k' = None"
    by (auto simp: map_of_eq_None_iff)
  from d have "map_of (dict_merge (AList.update k' v' base) extra) k =
     (case map_of extra k of Some v \<Rightarrow> Some v | None \<Rightarrow> map_of (AList.update k' v' base) k)"
    by (rule Cons.IH)
  with p n show ?case
    by (simp add: dict_merge_Cons update_conv' split: option.splits)
qed

lemma events_of_then_do_Inr:
  "events_of (then_do (Inr x, s, tr) f) = tr @ events_of (f x s)"
  by (cases "f x s") (simp add: then_do_Inr events_of_simp)

lemma users_joined:
  "users (state_of (add_participant ws r u (JObj info) s)) =
     AList.update u (AList.update ''room_id'' (JStr r) (dict_merge [] info)) (users s)"
  by (simp add: users_add_participant)

lemma listing_after_join:
  assumes "s1 = state_of (add_participant ws r u (JObj info) s)"
    and "stored = AList.update ''room_id'' (JStr r) (dict_merge [] info)"
    and "ps = map (\<lambda>k. participant_entry k (dict_get (users s1) k []))
                (filter (\<lambda>k. dict_in k (users s1)) (room_members r s1))"
  shows "participant_entry u stored \<in> set ps"
    and "map_of (rooms s) r = None \<Longrightarrow> ps = [participant_entry u stored]"
proof -
  have m: "u \<in> set (room_members r s1)"
    unfolding assms(1) by (simp add: set_room_members_add_participant)
  have i: "dict_in u (users s1)"
    unfolding assms(1) by (simp add: users_joined dict_in_update)
  have g: "dict_get (users s1) u [] = stored"
    unfolding assms(1,2) by (simp add: users_joined dict_get_def update_conv')
  from m i have "u \<in> set (filter (\<lambda>k. dict_in k (users s1)) (room_members r s1))"
    by simp
  then have "participant_entry u (dict_get (users s1) u [])
      \<in> (\<lambda>k. participant_entry k (dict_get (users s1) k []))
          ` set (filter (\<lambda>k. dict_in k (users s1)) (room_members r s1))"
    by (rule imageI)
  then have "participant_entry u (dict_get (users s1) u []) \<in> set ps"
    unfolding assms(3) by (simp only: set_map)
  with g show "participant_entry u stored \<in> set ps" by simp
  assume "map_of (rooms s) r = None"
  then have "room_members r s1 = [u]"
    unfolding assms(1) by (simp add: room_members_add_participant dict_get_def)
  with i g show "ps = [participant_entry u stored]"
    unfolding assms(3) by simp
qed



section \<open>The dictionary under the iterator\<close>

lemma live_bury: "live (bury u sl) = AList.delete u (live sl)"
  by (induction u sl rule: bury.induct) (auto simp: AList.delete_eq)

lemma bury_append: "bury u (p @ a) = bury u p @ bury u a"
  by (induction u p rule: bury.induct) simp_all

lemma rebind_append: "rebind u ws (p @ a) = rebind u ws p @ rebind u ws a"
  by (induction u ws p rule: rebind.induct) simp_all

lemma live_rebind:
  "distinct (map fst (live sl)) \<Longrightarrow> dict_in u (live sl) \<Longrightarrow>
   live (rebind u ws sl) = AList.update u ws (live sl)"
proof (induction u ws sl rule: rebind.induct)
  case (1 u ws)
  then show ?case by (simp add: dict_in_def)
next
  case (2 u ws sl)
  then show ?case by simp
next
  case (3 u ws k w sl)
  show ?case
  proof (cases "k = u")
    case True
    with "3.prems" have "u \<notin> fst ` set (live sl)" by auto
    then have "live (rebind u ws sl) = live sl"
      by (induction sl rule: live.induct) auto
    with True show ?thesis by simp
  next
    case False
    with "3.prems" have "distinct (map fst (live sl))" and "dict_in u (live sl)"
      by (simp_all add: dict_in_def)
    then have "live (rebind u ws sl) = AList.update u ws (live sl)"
      by (rule "3.IH")
    with False show ?thesis by simp
  qed
qed

text \<open>
  The slots under the iterator and the room of the registry stay the same dictionary
  through every block of another handler, until the room is deleted.
\<close>

lemma track_agrees:
  assumes c: "map_of (rooms s) r = Some (live (p @ a))"
    and ne: "live (p @ a) \<noteq> []"
    and di: "distinct (map fst (live (p @ a)))"
    and t: "track r m (p, a) = (p', a')"
  shows "map_of (rooms (mutate m s)) r =
     (if live (p' @ a') = [] then None else Some (live (p' @ a')))"
proof (cases m)
  case (Leaves r' u)
  show ?thesis
  proof (cases "r' = r")
    case False
    with Leaves t c ne show ?thesis
      by (auto simp: map_of_rooms_disconnect_other)
  next
    case True
    with Leaves t ne have "live (p' @ a') = AList.delete u (live (p @ a))"
      by (auto simp: bury_append [symmetric] live_bury)
    with Leaves True c ne show ?thesis
      by (simp add: rooms_disconnect map_of_rooms_less_same delete_not_in)
  qed
next
  case (Joins ws r' u info)
  show ?thesis
  proof (cases "r' = r")
    case False
    with Joins t c ne show ?thesis
      by (auto simp: rooms_add_participant update_conv')
  next
    case True
    from c have g: "dict_get (rooms s) r [] = live (p @ a)"
      by (simp add: dict_get_def)
    have "live (p' @ a') = AList.update u ws (live (p @ a))"
    proof (cases "dict_in u (live (p @ a))")
      case i: True
      with Joins True t ne have "p' @ a' = rebind u ws (p @ a)"
        by (auto simp: rebind_append)
      with di i show ?thesis by (simp add: live_rebind)
    next
      case i: False
      with Joins True t ne have "p' @ a' = (p @ a) @ [Some (u, ws)]"
        by auto
      moreover from i have "AList.update u ws (live (p @ a)) = live (p @ a) @ [(u, ws)]"
        by (simp add: update_append_new dict_in_def)
      ultimately show ?thesis by (simp add: live_append)
    qed
    with Joins True g show ?thesis
      by (simp add: rooms_add_participant update_conv' update_not_Nil)
  qed
qed

section \<open>What a session can add\<close>

lemma joined_to_mono: "A \<subseteq> B \<Longrightarrow> joined_to r A \<subseteq> joined_to r B"
  unfolding joined_to_def by auto

lemma joined_mono: "A \<subseteq> B \<Longrightarrow> joined A \<subseteq> joined B"
  unfolding joined_def by auto

lemma joined_to_leaves: "joined_to r' (E \<union> leaves_of r) = joined_to r' E"
  unfolding joined_to_def leaves_of_def by auto

lemma joined_leaves: "joined (E \<union> leaves_of r) = joined E"
  unfolding joined_def leaves_of_def by auto

lemma members_mutate:
  "m \<in> A \<Longrightarrow> set (room_members r' (mutate m s)) \<subseteq> set (room_members r' s) \<union> joined_to r' A"
proof (cases m)
  case (Joins ws r u info)
  assume "m \<in> A"
  with Joins have "r = r' \<Longrightarrow> u \<in> joined_to r' A"
    unfolding joined_to_def by auto
  with Joins show ?thesis
    by (auto simp: set_room_members_add_participant)
next
  case (Leaves r u)
  then show ?thesis
    by (cases "r' = r")
       (auto simp: room_members_disconnect_same room_members_disconnect_other)
qed

lemma members_mutate_all:
  "set ms \<subseteq> A \<Longrightarrow>
   set (room_members r' (mutate_all ms s)) \<subseteq> set (room_members r' s) \<union> joined_to r' A"
proof (induction ms arbitrary: s)
  case Nil
  show ?case by simp
next
  case (Cons m ms)
  from Cons.prems have "m \<in> A" and "set ms \<subseteq> A" by simp_all
  then have "set (room_members r' (mutate m s)) \<subseteq> set (room_members r' s) \<union> joined_to r' A"
    and "set (room_members r' (mutate_all ms (mutate m s)))
      \<subseteq> set (room_members r' (mutate m s)) \<union> joined_to r' A"
    by (simp_all add: members_mutate Cons.IH)
  then show ?case by auto
qed

lemma members_evolves:
  "evolves A s s' \<Longrightarrow> set (room_members r' s') \<subseteq> set (room_members r' s) \<union> joined_to r' A"
  unfolding evolves_def using members_mutate_all by blast

lemma users_keys_mutate:
  "m \<in> A \<Longrightarrow> fst ` set (users (mutate m s)) \<subseteq> fst ` set (users s) \<union> joined A"
proof (cases m)
  case (Joins ws r u info)
  assume "m \<in> A"
  with Joins have "u \<in> joined A"
    unfolding joined_def by auto
  with Joins show ?thesis
    by (cases info) (auto simp: users_add_participant dom_update)
next
  case (Leaves r u)
  have "fst ` set (AList.delete u (users s)) \<subseteq> fst ` set (users s)"
    by (rule dom_delete_subset)
  with Leaves show ?thesis
    by (auto simp: users_disconnect)
qed

lemma users_keys_mutate_all:
  "set ms \<subseteq> A \<Longrightarrow> fst ` set (users (mutate_all ms s)) \<subseteq> fst ` set (users s) \<union> joined A"
proof (induction ms arbitrary: s)
  case Nil
  show ?case by simp
next
  case (Cons m ms)
  from Cons.prems have "m \<in> A" and "set ms \<subseteq> A" by simp_all
  then have "fst ` set (users (mutate m s)) \<subseteq> fst ` set (users s) \<union> joined A"
    and "fst ` set (users (mutate_all ms (mutate m s)))
      \<subseteq> fst ` set (users (mutate m s)) \<union> joined A"
    by (simp_all add: users_keys_mutate Cons.IH)
  then show ?case by simp blast
qed

lemma users_keys_evolves:
  "evolves A s s' \<Longrightarrow> fst ` set (users s') \<subseteq> fst ` set (users s) \<union> joined A"
  unfolding evolves_def using users_keys_mutate_all by blast

lemma users_entries_mutate_all:
  "set ms \<subseteq> A \<Longrightarrow> joined A = {} \<Longrightarrow> set (users (mutate_all ms s)) \<subseteq> set (users s)"
proof (induction ms arbitrary: s)
  case Nil
  show ?case by simp
next
  case (Cons m ms)
  from Cons.prems have "m \<in> A" and sub: "set ms \<subseteq> A" by simp_all
  with Cons.prems(2) obtain r u where m: "m = Leaves r u"
    unfolding joined_def by (cases m) auto
  then have "set (users (mutate m s)) \<subseteq> set (users s)"
    by (auto simp: users_disconnect AList.delete_eq)
  moreover have "set (users (mutate_all ms (mutate m s))) \<subseteq> set (users (mutate m s))"
    using sub Cons.prems(2) by (rule Cons.IH)
  ultimately show ?case by auto
qed

lemma users_entries_evolves:
  "evolves A s s' \<Longrightarrow> joined A = {} \<Longrightarrow> set (users s') \<subseteq> set (users s)"
  unfolding evolves_def using users_entries_mutate_all by blast

lemma try_body_not_object:
  "\<not> first_is_object frames \<Longrightarrow>
   \<exists>e. try_body fails envs ws r u frames s = (Inl e, s, [])"
proof (cases frames)
  case Nil
  then show ?thesis by (simp add: try_body_def)
next
  case (Cons f rest)
  assume no: "\<not> first_is_object frames"
  show ?thesis
  proof (cases f)
    case Malformed
    with Cons show ?thesis by (simp add: try_body_def)
  next
    case (Json init)
    with no Cons have "\<not> is_object init"
      by (cases init) (simp_all add: first_is_object_def)
    with Cons Json show ?thesis
      by (simp add: try_body_def handle_init_not_object then_do_Inl)
  qed
qed

lemma try_body_not_join_object:
  "dict_get d ''type'' JNull \<noteq> JStr ''join'' \<Longrightarrow>
   try_body fails envs ws r u (Json (JObj d) # rest) s = signal_loop fails (tl envs) r u rest s"
  by (cases "signal_loop fails (tl envs) r u rest s")
     (simp add: try_body_def handle_init_not_join then_do_Inr)

lemma try_body_not_join:
  "\<not> first_is_join frames \<Longrightarrow>
   evolves (session_acts envs \<union> leaves_of r) s (state_of (try_body fails envs ws r u frames s))"
proof (cases "first_is_object frames")
  case False
  then obtain e where "try_body fails envs ws r u frames s = (Inl e, s, [])"
    using try_body_not_object by blast
  then show ?thesis by (simp add: state_of_simp evolves_refl)
next
  case True
  assume nj: "\<not> first_is_join frames"
  from True obtain d rest where f: "frames = Json (JObj d) # rest"
    by (auto simp: first_is_object_def split: list.splits frame.splits json.splits)
  with nj have t: "dict_get d ''type'' JNull \<noteq> JStr ''join''"
    by (simp add: first_is_join_def)
  have "evolves (session_acts (tl envs) \<union> leaves_of r) s
      (state_of (signal_loop fails (tl envs) r u rest s))"
    by (rule evolves_signal_loop)
  then have "evolves (session_acts envs \<union> leaves_of r) s
      (state_of (signal_loop fails (tl envs) r u rest s))"
    by (rule evolves_widen_acts [OF tl_envs_subset])
  with t show ?thesis
    unfolding f by (simp add: try_body_not_join_object)
qed

lemma websocket_endpoint_not_join:
  "\<not> first_is_join frames \<Longrightarrow>
   evolves ((session_acts envs \<union> acts final) \<union> leaves_of r) s
     (state_of (websocket_endpoint fails envs final ws r u frames s))"
proof -
  assume "\<not> first_is_join frames"
  then have "evolves (session_acts envs \<union> leaves_of r) s
      (state_of (try_body fails envs ws r u frames s))"
    by (rule try_body_not_join)
  then have a: "evolves ((session_acts envs \<union> acts final) \<union> leaves_of r) s
      (state_of (try_body fails envs ws r u frames s))"
    by (rule evolves_widen_acts [rotated]) simp
  have "evolves (acts final \<union> leaves_of r)
      (state_of (try_body fails envs ws r u frames s))
      (state_of (cleanup fails final r u (state_of (try_body fails envs ws r u frames s))))"
    by (rule evolves_cleanup)
  then have "evolves ((session_acts envs \<union> acts final) \<union> leaves_of r)
      (state_of (try_body fails envs ws r u frames s))
      (state_of (cleanup fails final r u (state_of (try_body fails envs ws r u frames s))))"
    by (rule evolves_widen_acts [rotated]) simp
  with a show ?thesis
    unfolding websocket_endpoint_state by (rule evolves_trans)
qed

lemma websocket_endpoint_not_object:
  "\<not> first_is_object frames \<Longrightarrow>
   websocket_endpoint fails envs final ws r u frames s = cleanup fails final r u s"
proof -
  assume "\<not> first_is_object frames"
  then obtain e where "try_body fails envs ws r u frames s = (Inl e, s, [])"
    using try_body_not_object by blast
  then show ?thesis
    by (cases "cleanup fails final r u s") (simp add: websocket_endpoint_def then_do_Inr)
qed

lemma websocket_endpoint_events:
  "events_of (websocket_endpoint fails envs final ws r u frames s) =
     events_of (try_body fails envs ws r u frames s)
       @ events_of (cleanup fails final r u (state_of (try_body fails envs ws r u frames s)))"
  by (cases "try_body fails envs ws r u frames s")
     (simp add: websocket_endpoint_def events_of_then_do_Inr events_of_simp state_of_simp)


section \<open>The first message of a connection\<close>

text \<open>
  C4, as the code has it. On a \<open>join\<close> whose \<open>user_info\<close> is an object, the first thing
  the handler sends is the \<open>room_state\<close> to the joining channel, and its participants are
  the listing of the room after the joiner has been registered: the joiner's own entry is in
  it, and for a room that was not in the registry it is the only entry.
\<close>

theorem room_state_lists_joiner:
  "dict_get d ''type'' JNull = JStr ''join'' \<Longrightarrow>
   dict_get d ''user_info'' (JObj []) = JObj info \<Longrightarrow>
   \<exists>ps rest.
     get_room_participants room_id
       (state_of (add_participant ws room_id user_id (JObj info) s)) = Inr ps \<and>
     events_of (handle_init fails others ws room_id user_id (JObj d) s) =
       (if fails ws
        then Lost ws (JObj [(''type'', JStr ''room_state''), (''participants'', JArr ps)])
        else Sent ws (JObj [(''type'', JStr ''room_state''), (''participants'', JArr ps)]))
       # rest \<and>
     participant_entry user_id (AList.update ''room_id'' (JStr room_id) (dict_merge [] info))
       \<in> set ps \<and>
     (map_of (rooms s) room_id = None \<longrightarrow>
        ps = [participant_entry user_id
                (AList.update ''room_id'' (JStr room_id) (dict_merge [] info))])"
proof -
  assume j: "dict_get d ''type'' JNull = JStr ''join''"
    and i: "dict_get d ''user_info'' (JObj []) = JObj info"
  define s1 where "s1 = state_of (add_participant ws room_id user_id (JObj info) s)"
  define stored where "stored = AList.update ''room_id'' (JStr room_id) (dict_merge [] info)"
  define ps where "ps = map (\<lambda>k. participant_entry k (dict_get (users s1) k []))
                (filter (\<lambda>k. dict_in k (users s1)) (room_members room_id s1))"
  define room_state where
    "room_state = JObj [(''type'', JStr ''room_state''), (''participants'', JArr ps)]"
  have g: "get_room_participants room_id s1 = Inr ps"
    unfolding ps_def by (rule get_room_participants_eq)
  have h: "handle_init fails others ws room_id user_id (JObj d) s =
     (if fails ws then (Inl SendFailure, s1, [Lost ws room_state])
      else
        (case broadcast_to_room fails others room_id
                (JObj [(''type'', JStr ''user_joined''), (''user_id'', JStr user_id),
                       (''user_info'', JObj info)]) (Some user_id) s1 of
           (res, s2, tr) \<Rightarrow> (res, s2, Sent ws room_state # tr)))"
    using j i s1_def by (rule handle_init_join) (simp add: room_state_def ps_def)
  have "\<exists>rest. events_of (handle_init fails others ws room_id user_id (JObj d) s) =
       (if fails ws then Lost ws room_state else Sent ws room_state) # rest"
    unfolding h by (simp add: events_of_simp split: prod.splits)
  then obtain rest where e: "events_of (handle_init fails others ws room_id user_id (JObj d) s) =
       (if fails ws then Lost ws room_state else Sent ws room_state) # rest" ..
  have m: "participant_entry user_id stored \<in> set ps"
    using s1_def stored_def ps_def by (rule listing_after_join(1))
  have o: "map_of (rooms s) room_id = None \<longrightarrow> ps = [participant_entry user_id stored]"
    using listing_after_join(2) [OF s1_def stored_def ps_def] by blast
  show ?thesis
  proof (intro exI conjI)
    show "get_room_participants room_id
        (state_of (add_participant ws room_id user_id (JObj info) s)) = Inr ps"
      using g unfolding s1_def .
    show "events_of (handle_init fails others ws room_id user_id (JObj d) s) =
       (if fails ws
        then Lost ws (JObj [(''type'', JStr ''room_state''), (''participants'', JArr ps)])
        else Sent ws (JObj [(''type'', JStr ''room_state''), (''participants'', JArr ps)]))
       # rest"
      using e unfolding room_state_def .
    show "participant_entry user_id
        (AList.update ''room_id'' (JStr room_id) (dict_merge [] info)) \<in> set ps"
      using m unfolding stored_def .
    show "map_of (rooms s) room_id = None \<longrightarrow>
        ps = [participant_entry user_id
                (AList.update ''room_id'' (JStr room_id) (dict_merge [] info))]"
      using o unfolding stored_def .
  qed
qed

theorem room_state_lists_joiner_witness:
  "\<exists>ps rest.
     get_room_participants ''r1''
       (state_of (add_participant 2 ''r1'' ''B'' (JObj [])
          \<lparr>rooms = [(''r1'', [(''A'', 1)])], users = [(''A'', [(''room_id'', JStr ''r1'')])]\<rparr>))
       = Inr ps \<and>
     events_of (handle_init (\<lambda>w. False) [] 2 ''r1'' ''B'' (JObj [(''type'', JStr ''join'')])
          \<lparr>rooms = [(''r1'', [(''A'', 1)])], users = [(''A'', [(''room_id'', JStr ''r1'')])]\<rparr>) =
       Sent 2 (JObj [(''type'', JStr ''room_state''), (''participants'', JArr ps)]) # rest \<and>
     participant_entry ''B'' [(''room_id'', JStr ''r1'')] \<in> set ps"
  using room_state_lists_joiner [where d = "[(''type'', JStr ''join'')]" and info = "[]"
      and room_id = "''r1''" and ws = 2 and user_id = "''B''" and fails = "\<lambda>w. False"
      and others = "[]"
      and s = "\<lparr>rooms = [(''r1'', [(''A'', 1)])],
                users = [(''A'', [(''room_id'', JStr ''r1'')])]\<rparr>"]
  by (simp add: dict_get_def dict_merge_def)

text \<open>
  The claim as it was stated fails: \<open>A\<close> joins the empty registry, and the
  \<open>room_state\<close> it receives lists \<open>A\<close> itself.
\<close>

theorem room_state_empty_room_counterexample:
  "events_of (handle_init (\<lambda>w. False) [] 1 ''r1'' ''A''
      (JObj [(''type'', JStr ''join''), (''user_info'', JObj [(''first_name'', JStr ''Ann'')])])
      empty_registry)
   = [Sent 1 (JObj [(''type'', JStr ''room_state''),
                    (''participants'',
                     JArr [JObj [(''user_id'', JStr ''A''), (''first_name'', JStr ''Ann''),
                                 (''room_id'', JStr ''r1'')]])])]"
  by (simp add: handle_init_join [OF _ _ refl refl] dict_get_def empty_registry_def
      add_participant_obj state_of_simp events_of_simp dict_merge_def dict_set_def
      room_members_def dict_in_def participant_entry_def broadcast_to_room_quiet
      broadcast_attempts_def failed_recipients_def)

text \<open>
  C3, as the code has it. A connection whose first message is not a \<open>join\<close> (or that
  sends nothing) never adds a key to a room or an entry to \<open>users\<close>, neither while its
  messages are handled nor in its cleanup: what the registry gains during its session is
  what the other connections register in the meantime. When it sends nothing, or its first
  message does not decode or is no JSON object, the body of the handler ends at once with
  the registry untouched and nothing sent, and the session is the cleanup alone. After a
  first message that is an object of another type the connection stays open and the
  signaling loop handles the messages that follow. In every case the cleanup of the
  \<^verbatim>\<open>finally\<close> clause runs when the session ends.
\<close>

theorem unjoined_connection_adds_nothing:
  "\<not> first_is_join frames \<Longrightarrow>
   set (room_members r' (state_of (try_body fails envs ws room_id user_id frames s)))
     \<subseteq> set (room_members r' s) \<union> joined_to r' (session_acts envs) \<and>
   fst ` set (users (state_of (try_body fails envs ws room_id user_id frames s)))
     \<subseteq> fst ` set (users s) \<union> joined (session_acts envs) \<and>
   set (room_members r' (state_of (websocket_endpoint fails envs final ws room_id user_id frames s)))
     \<subseteq> set (room_members r' s) \<union> joined_to r' (session_acts envs \<union> acts final) \<and>
   fst ` set (users (state_of (websocket_endpoint fails envs final ws room_id user_id frames s)))
     \<subseteq> fst ` set (users s) \<union> joined (session_acts envs \<union> acts final) \<and>
   (session_acts envs \<union> acts final = {} \<longrightarrow>
      set (room_members r' (state_of (try_body fails envs ws room_id user_id frames s)))
        \<subseteq> set (room_members r' s) \<and>
      set (users (state_of (try_body fails envs ws room_id user_id frames s)))
        \<subseteq> set (users s) \<and>
      set (room_members r'
          (state_of (websocket_endpoint fails envs final ws room_id user_id frames s)))
        \<subseteq> set (room_members r' s) \<and>
      set (users (state_of (websocket_endpoint fails envs final ws room_id user_id frames s)))
        \<subseteq> set (users s)) \<and>
   (\<not> first_is_object frames \<longrightarrow>
      state_of (try_body fails envs ws room_id user_id frames s) = s \<and>
      events_of (try_body fails envs ws room_id user_id frames s) = [] \<and>
      websocket_endpoint fails envs final ws room_id user_id frames s
        = cleanup fails final room_id user_id s) \<and>
   (\<forall>d rest. frames = Json (JObj d) # rest \<longrightarrow>
      try_body fails envs ws room_id user_id frames s
        = signal_loop fails (tl envs) room_id user_id rest s) \<and>
   events_of (websocket_endpoint fails envs final ws room_id user_id frames s) =
     events_of (try_body fails envs ws room_id user_id frames s)
       @ events_of (cleanup fails final room_id user_id
            (state_of (try_body fails envs ws room_id user_id frames s)))"
proof -
  assume nj: "\<not> first_is_join frames"
  let ?s1 = "state_of (try_body fails envs ws room_id user_id frames s)"
  let ?s2 = "state_of (websocket_endpoint fails envs final ws room_id user_id frames s)"
  let ?E = "session_acts envs"
  let ?F = "session_acts envs \<union> acts final"
  from nj have a: "evolves (?E \<union> leaves_of room_id) s ?s1"
    by (rule try_body_not_join)
  from nj have b: "evolves (?F \<union> leaves_of room_id) s ?s2"
    by (rule websocket_endpoint_not_join)
  have a1: "set (room_members r' ?s1) \<subseteq> set (room_members r' s) \<union> joined_to r' ?E"
    using members_evolves [OF a, of r'] by (simp add: joined_to_leaves)
  have a2: "fst ` set (users ?s1) \<subseteq> fst ` set (users s) \<union> joined ?E"
    using users_keys_evolves [OF a] by (simp add: joined_leaves)
  have b1: "set (room_members r' ?s2) \<subseteq> set (room_members r' s) \<union> joined_to r' ?F"
    using members_evolves [OF b, of r'] by (simp add: joined_to_leaves)
  have b2: "fst ` set (users ?s2) \<subseteq> fst ` set (users s) \<union> joined ?F"
    using users_keys_evolves [OF b] by (simp add: joined_leaves)
  have q: "?F = {} \<longrightarrow>
      set (room_members r' ?s1) \<subseteq> set (room_members r' s) \<and>
      set (users ?s1) \<subseteq> set (users s) \<and>
      set (room_members r' ?s2) \<subseteq> set (room_members r' s) \<and>
      set (users ?s2) \<subseteq> set (users s)"
  proof
    assume e: "?F = {}"
    then have e1: "?E = {}" by simp
    have j: "joined (leaves_of room_id) = {}" and jt: "joined_to r' (leaves_of room_id) = {}"
      unfolding joined_def joined_to_def leaves_of_def by auto
    from a e1 have a': "evolves (leaves_of room_id) s ?s1" by simp
    from b e have b': "evolves (leaves_of room_id) s ?s2" by simp
    from members_evolves [OF a', of r'] users_entries_evolves [OF a' j]
      members_evolves [OF b', of r'] users_entries_evolves [OF b' j]
    show "set (room_members r' ?s1) \<subseteq> set (room_members r' s) \<and>
      set (users ?s1) \<subseteq> set (users s) \<and>
      set (room_members r' ?s2) \<subseteq> set (room_members r' s) \<and>
      set (users ?s2) \<subseteq> set (users s)"
      by (simp add: jt)
  qed
  have n: "\<not> first_is_object frames \<longrightarrow>
      ?s1 = s \<and> events_of (try_body fails envs ws room_id user_id frames s) = [] \<and>
      websocket_endpoint fails envs final ws room_id user_id frames s
        = cleanup fails final room_id user_id s"
  proof
    assume no: "\<not> first_is_object frames"
    then obtain e where "try_body fails envs ws room_id user_id frames s = (Inl e, s, [])"
      using try_body_not_object by blast
    then have "?s1 = s" and "events_of (try_body fails envs ws room_id user_id frames s) = []"
      by (simp_all add: state_of_simp events_of_simp)
    moreover from no have "websocket_endpoint fails envs final ws room_id user_id frames s
        = cleanup fails final room_id user_id s"
      by (rule websocket_endpoint_not_object)
    ultimately show "?s1 = s \<and>
      events_of (try_body fails envs ws room_id user_id frames s) = [] \<and>
      websocket_endpoint fails envs final ws room_id user_id frames s
        = cleanup fails final room_id user_id s"
      by simp
  qed
  have c: "\<forall>d rest. frames = Json (JObj d) # rest \<longrightarrow>
      try_body fails envs ws room_id user_id frames s
        = signal_loop fails (tl envs) room_id user_id rest s"
  proof (intro allI impI)
    fix d rest
    assume f: "frames = Json (JObj d) # rest"
    with nj have "dict_get d ''type'' JNull \<noteq> JStr ''join''"
      by (simp add: first_is_join_def)
    then show "try_body fails envs ws room_id user_id frames s
        = signal_loop fails (tl envs) room_id user_id rest s"
      unfolding f by (rule try_body_not_join_object)
  qed
  note ev = websocket_endpoint_events [of fails envs final ws room_id user_id frames s]
  from a1 a2 b1 b2 q n c ev show ?thesis
    by (intro conjI)
qed

theorem unjoined_connection_adds_nothing_witness:
  "set (room_members ''r1'' (state_of (websocket_endpoint (\<lambda>w. False) [] [] 1 ''r1'' ''A''
       [Json (JObj [(''type'', JStr ''hello'')])]
       \<lparr>rooms = [(''r1'', [(''B'', 2)])], users = [(''B'', [(''room_id'', JStr ''r1'')])]\<rparr>)))
     \<subseteq> set (room_members ''r1''
       \<lparr>rooms = [(''r1'', [(''B'', 2)])], users = [(''B'', [(''room_id'', JStr ''r1'')])]\<rparr>) \<and>
   set (users (state_of (websocket_endpoint (\<lambda>w. False) [] [] 1 ''r1'' ''A''
       [Json (JObj [(''type'', JStr ''hello'')])]
       \<lparr>rooms = [(''r1'', [(''B'', 2)])], users = [(''B'', [(''room_id'', JStr ''r1'')])]\<rparr>)))
     \<subseteq> set (users
       \<lparr>rooms = [(''r1'', [(''B'', 2)])], users = [(''B'', [(''room_id'', JStr ''r1'')])]\<rparr>)"
proof -
  have nj: "\<not> first_is_join [Json (JObj [(''type'', JStr ''hello'')])]"
    by (simp add: first_is_join_def dict_get_def)
  have q: "session_acts [] \<union> acts [] = {}"
    by (simp add: session_acts_def acts_def)
  from unjoined_connection_adds_nothing [OF nj, where r' = "''r1''" and fails = "\<lambda>w. False"
      and envs = "[]" and final = "[]" and ws = 1 and room_id = "''r1''" and user_id = "''A''"
      and s = "\<lparr>rooms = [(''r1'', [(''B'', 2)])],
                users = [(''B'', [(''room_id'', JStr ''r1'')])]\<rparr>"] q
  show ?thesis by blast
qed

text \<open>
  The claim as it was stated fails: the connection of \<open>A\<close> to room \<open>r1\<close> first sends a
  message that is no \<open>join\<close>, then an \<open>offer\<close> for \<open>B\<close>, then closes. The offer is
  relayed to \<open>B\<close>, and \<open>B\<close> is told that \<open>A\<close> has left.
\<close>

theorem unjoined_connection_counterexample:
  "websocket_endpoint (\<lambda>w. False) [] [] 1 ''r1'' ''A''
     [Json (JObj [(''type'', JStr ''hello'')]),
      Json (JObj [(''type'', JStr ''offer''), (''target_user_id'', JStr ''B''),
                  (''offer'', JStr ''SDP_X'')])]
     \<lparr>rooms = [(''r1'', [(''B'', 2)])], users = [(''B'', [(''room_id'', JStr ''r1'')])]\<rparr>
   = (Inr (),
      \<lparr>rooms = [(''r1'', [(''B'', 2)])], users = [(''B'', [(''room_id'', JStr ''r1'')])]\<rparr>,
      [Sent 2 (JObj [(''type'', JStr ''offer''), (''from_user_id'', JStr ''A''),
                     (''offer'', JStr ''SDP_X'')]),
       Sent 2 (JObj [(''type'', JStr ''user_left''), (''user_id'', JStr ''A'')])])"
  by (simp add: websocket_endpoint_def try_body_def handle_init_def signal_step_def Let_def
      dict_get_def send_to_user_def dict_in_def dict_item_def run_simps cleanup_def
      disconnect_eq rooms_less_def broadcast_to_room_quiet broadcast_attempts_def
      failed_recipients_def during_def)

section \<open>The metadata of a participant\<close>

text \<open>
  C10, as the code has it. A join stores for its key the \<open>user_info\<close> object with
  \<open>room_id\<close> set to the joined room, whatever \<open>room_id\<close> it came with, and replaces an
  entry of the same key where it stands. The key's entry of the listing has that
  \<open>room_id\<close> and every other field of \<open>user_info\<close>; its \<open>user_id\<close> is the key unless
  \<open>user_info\<close> has a \<open>user_id\<close> of its own, which then stands in its place.
\<close>

theorem join_stores_metadata:
  "distinct (map fst info) \<Longrightarrow>
   map_of (users (state_of (add_participant ws room_id user_id (JObj info) s))) user_id
     = Some (AList.update ''room_id'' (JStr room_id) info) \<and>
   (dict_in user_id (users s) \<longrightarrow>
      map fst (users (state_of (add_participant ws room_id user_id (JObj info) s)))
        = map fst (users s)) \<and>
   (\<exists>ps. get_room_participants room_id
            (state_of (add_participant ws room_id user_id (JObj info) s)) = Inr ps \<and>
         participant_entry user_id (AList.update ''room_id'' (JStr room_id) info) \<in> set ps) \<and>
   (\<exists>m. participant_entry user_id (AList.update ''room_id'' (JStr room_id) info) = JObj m \<and>
        map_of m ''room_id'' = Some (JStr room_id) \<and>
        (\<forall>k v. k \<noteq> ''room_id'' \<and> map_of info k = Some v \<longrightarrow> map_of m k = Some v) \<and>
        (map_of info ''user_id'' = None \<longrightarrow> map_of m ''user_id'' = Some (JStr user_id)) \<and>
        dict_in ''user_id'' m)"
proof -
  assume dist: "distinct (map fst info)"
  define s1 where "s1 = state_of (add_participant ws room_id user_id (JObj info) s)"
  define stored where "stored = AList.update ''room_id'' (JStr room_id) info"
  define m where "m = dict_merge [(''user_id'', JStr user_id)] stored"
  from dist have merged: "dict_merge [] info = info"
    by (rule dict_merge_empty)
  have a: "map_of (users s1) user_id = Some stored"
    unfolding s1_def stored_def by (simp add: users_joined merged update_conv')
  have b: "dict_in user_id (users s) \<longrightarrow> map fst (users s1) = map fst (users s)"
    unfolding s1_def by (simp add: users_joined update_keys dict_in_def)
  have st: "stored = AList.update ''room_id'' (JStr room_id) (dict_merge [] info)"
    unfolding stored_def by (simp add: merged)
  have c: "\<exists>ps. get_room_participants room_id s1 = Inr ps \<and>
      participant_entry user_id stored \<in> set ps"
    using get_room_participants_eq [of room_id s1] listing_after_join(1) [OF s1_def st refl]
    by blast
  from dist have "distinct (map fst stored)"
    unfolding stored_def by (rule distinct_update)
  then have mo: "map_of m k =
      (case map_of stored k of Some v \<Rightarrow> Some v
       | None \<Rightarrow> map_of [(''user_id'', JStr user_id)] k)" for k
    unfolding m_def by (rule map_of_dict_merge)
  have so: "map_of stored k = ((map_of info)(''room_id'' \<mapsto> JStr room_id)) k" for k
    unfolding stored_def by (simp add: update_conv')
  have d1: "map_of m ''room_id'' = Some (JStr room_id)"
    by (simp add: mo so)
  have d2: "\<forall>k v. k \<noteq> ''room_id'' \<and> map_of info k = Some v \<longrightarrow> map_of m k = Some v"
    by (simp add: mo so)
  have d3: "map_of info ''user_id'' = None \<longrightarrow> map_of m ''user_id'' = Some (JStr user_id)"
    by (simp add: mo so)
  have d4: "dict_in ''user_id'' m"
    by (cases "map_of info ''user_id''") (simp_all add: dict_in_map_of mo so)
  have e: "participant_entry user_id stored = JObj m"
    unfolding m_def by (simp add: participant_entry_def)
  have f: "participant_entry user_id stored = JObj m \<and>
        map_of m ''room_id'' = Some (JStr room_id) \<and>
        (\<forall>k v. k \<noteq> ''room_id'' \<and> map_of info k = Some v \<longrightarrow> map_of m k = Some v) \<and>
        (map_of info ''user_id'' = None \<longrightarrow> map_of m ''user_id'' = Some (JStr user_id)) \<and>
        dict_in ''user_id'' m"
    using e d1 d2 d3 d4 by (intro conjI)
  show ?thesis
  proof (intro conjI)
    show "map_of (users (state_of (add_participant ws room_id user_id (JObj info) s))) user_id
        = Some (AList.update ''room_id'' (JStr room_id) info)"
      using a unfolding s1_def stored_def .
    show "dict_in user_id (users s) \<longrightarrow>
        map fst (users (state_of (add_participant ws room_id user_id (JObj info) s)))
          = map fst (users s)"
      using b unfolding s1_def .
    show "\<exists>ps. get_room_participants room_id
              (state_of (add_participant ws room_id user_id (JObj info) s)) = Inr ps \<and>
        participant_entry user_id (AList.update ''room_id'' (JStr room_id) info) \<in> set ps"
      using c unfolding s1_def stored_def .
    show "\<exists>m. participant_entry user_id (AList.update ''room_id'' (JStr room_id) info) = JObj m \<and>
        map_of m ''room_id'' = Some (JStr room_id) \<and>
        (\<forall>k v. k \<noteq> ''room_id'' \<and> map_of info k = Some v \<longrightarrow> map_of m k = Some v) \<and>
        (map_of info ''user_id'' = None \<longrightarrow> map_of m ''user_id'' = Some (JStr user_id)) \<and>
        dict_in ''user_id'' m"
      using f unfolding stored_def by (rule exI)
  qed
qed

theorem join_stores_metadata_witness:
  "map_of (users (state_of (add_participant 1 ''r1'' ''A''
       (JObj [(''first_name'', JStr ''Ann''), (''room_id'', JStr ''elsewhere'')])
       empty_registry))) ''A''
     = Some [(''first_name'', JStr ''Ann''), (''room_id'', JStr ''r1'')]"
proof -
  have "distinct (map fst [(''first_name'', JStr ''Ann''), (''room_id'', JStr ''elsewhere'')])"
    by simp
  from join_stores_metadata [OF this, of 1 "''r1''" "''A''" empty_registry]
  show ?thesis by simp
qed

text \<open>
  The claim as it was stated fails: \<open>A\<close> joins with a \<open>user_info\<close> that has a
  \<open>user_id\<close> field, and the listing shows that field in the place of \<open>A\<close>.
\<close>

theorem listing_user_id_counterexample:
  "get_room_participants ''r1''
     (state_of (add_participant 1 ''r1'' ''A'' (JObj [(''user_id'', JStr ''X'')])
        empty_registry))
   = Inr [JObj [(''user_id'', JStr ''X''), (''room_id'', JStr ''r1'')]]"
  by (simp add: get_room_participants_eq add_participant_obj state_of_simp empty_registry_def
      dict_get_def dict_merge_def dict_set_def dict_in_def room_members_def
      participant_entry_def)

section \<open>Rooms and their participants\<close>

text \<open>
  C1. After every history from the empty registry (joins, leaves, broadcasts and unicasts
  with any dead channels, whole sessions), a room key is in \<open>rooms\<close> if and only if the
  room has at least one participant. A join makes its participant a member of its room,
  and a leave takes its participant, and nobody else, out of its room.
\<close>

theorem room_present_iff_occupied:
  "(dict_in room_id (rooms (run_ops ops empty_registry)) \<longleftrightarrow>
      1 \<le> length (room_members room_id (run_ops ops empty_registry))) \<and>
   set (room_members room_id (apply_op (Join ws room_id user_id info) s))
     = insert user_id (set (room_members room_id s)) \<and>
   room_members room_id (apply_op (Leave room_id user_id) s)
     = removeAll user_id (room_members room_id s)"
proof -
  have "no_empty_room (run_ops ops empty_registry)"
    by (rule no_empty_room_run_ops)
  then have "dict_in room_id (rooms (run_ops ops empty_registry)) \<longleftrightarrow>
      1 \<le> length (room_members room_id (run_ops ops empty_registry))"
    unfolding no_empty_room_def
    by (cases "map_of (rooms (run_ops ops empty_registry)) room_id")
       (auto simp: dict_in_map_of room_members_def Suc_le_eq)
  then show ?thesis
    by (simp add: set_room_members_add_participant room_members_disconnect_same)
qed

theorem room_present_iff_occupied_witness:
  "dict_in ''r1'' (rooms (run_ops
      [Join 1 ''r1'' ''A'' [], Join 2 ''r1'' ''B'' [], Leave ''r1'' ''A''] empty_registry)) \<and>
   \<not> dict_in ''r1'' (rooms (run_ops
      [Join 1 ''r1'' ''A'' [], Join 2 ''r1'' ''B'' [], Leave ''r1'' ''A'', Leave ''r1'' ''B'']
      empty_registry))"
  using room_present_iff_occupied [of "''r1''"
      "[Join 1 ''r1'' ''A'' [], Join 2 ''r1'' ''B'' [], Leave ''r1'' ''A'']"]
    room_present_iff_occupied [of "''r1''"
      "[Join 1 ''r1'' ''A'' [], Join 2 ''r1'' ''B'' [], Leave ''r1'' ''A'', Leave ''r1'' ''B'']"]
  by (simp add: empty_registry_def add_participant_obj disconnect_eq state_of_simp
      rooms_less_def dict_get_def dict_in_def dict_merge_def room_members_def)

text \<open>
  C7, as the code has it. After every history from the empty registry, a participant key
  has at most one entry in \<open>users\<close> and at most one entry in any one room, and the
  \<open>room_id\<close> of its entry in \<open>users\<close> names a room that the key is bound to. Nothing
  keeps the key out of a second room.
\<close>

theorem users_entry_names_one_room:
  "distinct (map fst (users (run_ops ops empty_registry))) \<and>
   distinct (room_members room_id (run_ops ops empty_registry)) \<and>
   (map_of (users (run_ops ops empty_registry)) user_id = Some info \<longrightarrow>
      (\<exists>r. map_of info ''room_id'' = Some (JStr r) \<and>
           user_id \<in> set (room_members r (run_ops ops empty_registry))))"
proof -
  have "keys_distinct (run_ops ops empty_registry)"
    by (rule keys_distinct_run_ops)
  moreover have "users_bound (run_ops ops empty_registry)"
    by (rule users_bound_run_ops)
  ultimately show ?thesis
    unfolding keys_distinct_def users_bound_def by blast
qed

theorem users_entry_names_one_room_witness:
  "map_of (users (run_ops [Join 1 ''r1'' ''A'' [], Join 2 ''r2'' ''A'' []] empty_registry)) ''A''
     = Some [(''room_id'', JStr ''r2'')] \<and>
   (\<exists>r. map_of [(''room_id'', JStr ''r2'')] ''room_id'' = Some (JStr r) \<and>
        ''A'' \<in> set (room_members r
          (run_ops [Join 1 ''r1'' ''A'' [], Join 2 ''r2'' ''A'' []] empty_registry)))"
  using users_entry_names_one_room [of "[Join 1 ''r1'' ''A'' [], Join 2 ''r2'' ''A'' []]"
      "''r1''" "''A''" "[(''room_id'', JStr ''r2'')]"]
  by (simp add: empty_registry_def add_participant_obj state_of_simp
      dict_get_def dict_merge_def room_members_def)

text \<open>
  The claim as it was stated fails: \<open>A\<close> joins room \<open>r1\<close> on one connection and room
  \<open>r2\<close> on another, and is bound to both.
\<close>

theorem one_room_per_participant_counterexample:
  "''A'' \<in> set (room_members ''r1''
       (run_ops [Join 1 ''r1'' ''A'' [], Join 2 ''r2'' ''A'' []] empty_registry)) \<and>
   ''A'' \<in> set (room_members ''r2''
       (run_ops [Join 1 ''r1'' ''A'' [], Join 2 ''r2'' ''A'' []] empty_registry)) \<and>
   ''r1'' \<noteq> ''r2''"
  by (simp add: empty_registry_def add_participant_obj state_of_simp
      dict_get_def dict_merge_def room_members_def)

section \<open>Relaying signaling messages\<close>

text \<open>
  C5. A message of type \<open>offer\<close>, \<open>answer\<close> or \<open>ice_candidate\<close> whose
  \<open>target_user_id\<close> is a key of the sender's room causes exactly one send, to the
  target's channel, of the envelope with the message's type, the sender's key as
  \<open>from_user_id\<close> and the payload field as it came (\<open>offer\<close>, \<open>answer\<close>,
  \<open>candidate\<close>). When that send fails the target is disconnected; nothing is raised.
\<close>

theorem signal_step_relay:
  assumes "map_of (rooms s) room_id = Some conns" and "map_of conns target = Some w"
    and "dict_get d ''target_user_id'' JNull = JStr target"
    and "dict_get d ''type'' JNull = JStr kind"
    and "(kind, field) \<in> {(''offer'', ''offer''), (''answer'', ''answer''),
                          (''ice_candidate'', ''candidate'')}"
  shows "signal_step fails others room_id user_id (JObj d) s =
     (if fails w then
        (Inr (), state_of (disconnect room_id target s),
         [Lost w (JObj [(''type'', JStr kind), (''from_user_id'', JStr user_id),
                        (field, dict_get d field JNull)])])
      else
        (Inr (), s,
         [Sent w (JObj [(''type'', JStr kind), (''from_user_id'', JStr user_id),
                        (field, dict_get d field JNull)])]))"
proof -
  from assms(5) consider "kind = ''offer'' \<and> field = ''offer''"
    | "kind = ''answer'' \<and> field = ''answer''"
    | "kind = ''ice_candidate'' \<and> field = ''candidate''" by auto
  then show ?thesis
  proof cases
    case 1
    with assms(1-4) show ?thesis
      by (simp add: signal_step_def Let_def send_to_user_target)
  next
    case 2
    with assms(1-4) show ?thesis
      by (simp add: signal_step_def Let_def send_to_user_target)
  next
    case 3
    with assms(1-4) show ?thesis
      by (simp add: signal_step_def Let_def send_to_user_target)
  qed
qed

theorem signal_step_relay_witness:
  "signal_step (\<lambda>w. False) [] ''r1'' ''A''
     (JObj [(''type'', JStr ''offer''), (''target_user_id'', JStr ''B''),
            (''offer'', JStr ''SDP_X'')])
     \<lparr>rooms = [(''r1'', [(''A'', 1), (''B'', 2)])], users = []\<rparr>
   = (Inr (), \<lparr>rooms = [(''r1'', [(''A'', 1), (''B'', 2)])], users = []\<rparr>,
      [Sent 2 (JObj [(''type'', JStr ''offer''), (''from_user_id'', JStr ''A''),
                     (''offer'', JStr ''SDP_X'')])])"
  using signal_step_relay [where s = "\<lparr>rooms = [(''r1'', [(''A'', 1), (''B'', 2)])], users = []\<rparr>"
      and room_id = "''r1''" and conns = "[(''A'', 1), (''B'', 2)]" and target = "''B''" and w = 2
      and d = "[(''type'', JStr ''offer''), (''target_user_id'', JStr ''B''),
                (''offer'', JStr ''SDP_X'')]"
      and kind = "''offer''" and field = "''offer''" and fails = "\<lambda>w. False"
      and others = "[]" and user_id = "''A''"]
  by (simp add: dict_get_def)

section \<open>Broadcast\<close>

text \<open>
  When no other connection acts while \<^verbatim>\<open>broadcast_to_room\<close> is sending, it raises
  nothing and makes exactly one attempt for each entry of the room but the excluded key,
  whether or not an earlier attempt failed, and no other. When it returns, the keys whose
  attempt failed are gone from the room and from \<open>users\<close>, every other key of the room
  and every other entry of \<open>users\<close> is kept, and the other rooms are as they were.
\<close>

lemma broadcast_to_room_alone:
  "concat others = [] \<Longrightarrow> map_of (rooms s) room_id = Some conns \<Longrightarrow>
   fst (broadcast_to_room fails others room_id message exclude_user s) = Inr () \<and>
   events_of (broadcast_to_room fails others room_id message exclude_user s)
     = broadcast_attempts fails message exclude_user conns \<and>
   room_members room_id
       (state_of (broadcast_to_room fails others room_id message exclude_user s))
     = filter (\<lambda>u. u \<notin> set (failed_recipients fails exclude_user conns))
         (room_members room_id s) \<and>
   users (state_of (broadcast_to_room fails others room_id message exclude_user s))
     = filter (\<lambda>(u, info). u \<notin> set (failed_recipients fails exclude_user conns)) (users s) \<and>
   (\<forall>r'. r' \<noteq> room_id \<longrightarrow>
      map_of (rooms (state_of (broadcast_to_room fails others room_id message exclude_user s))) r'
        = map_of (rooms s) r')"
  by (simp add: broadcast_to_room_quiet state_of_simp events_of_simp room_members_leave_all
      users_leave_all map_of_rooms_leave_all_other)

text \<open>
  C2. A broadcast is to attempt a send to every entry of the room but the excluded key, a
  failed send is not to keep the others from being attempted, and the keys whose send
  failed are to be gone from the registry when the call returns. The code does so only as
  long as no other connection changes the room during the loop. Room
  \<open>r1\<close> has \<open>A\<close>, \<open>B\<close> and \<open>C\<close>, and the channel of \<open>A\<close> is dead. The send to
  \<open>A\<close> fails and \<open>A\<close> is noted for removal; while the send to \<open>B\<close> is awaited, a
  connection of \<open>D\<close> to \<open>r1\<close> is registered. The next step of the loop raises
  \<^verbatim>\<open>RuntimeError\<close>: no send to \<open>C\<close> is attempted, \<open>A\<close> stays in the room and in
  \<open>users\<close>, and the caller gets the exception.
\<close>

theorem broadcast_to_room_interrupted:
  "broadcast_to_room (\<lambda>w. w = 1) [[], [Joins 4 ''r1'' ''D'' (JObj [])]] ''r1''
     (JStr ''m'') None
     \<lparr>rooms = [(''r1'', [(''A'', 1), (''B'', 2), (''C'', 3)])],
      users = [(''A'', [(''room_id'', JStr ''r1'')]), (''B'', [(''room_id'', JStr ''r1'')]),
               (''C'', [(''room_id'', JStr ''r1'')])]\<rparr>
   = (Inl RuntimeError,
      \<lparr>rooms = [(''r1'', [(''A'', 1), (''B'', 2), (''C'', 3), (''D'', 4)])],
       users = [(''A'', [(''room_id'', JStr ''r1'')]), (''B'', [(''room_id'', JStr ''r1'')]),
                (''C'', [(''room_id'', JStr ''r1'')]), (''D'', [(''room_id'', JStr ''r1'')])]\<rparr>,
      [Lost 1 (JStr ''m''), Sent 2 (JStr ''m'')])"
  by (simp add: broadcast_to_room_def dict_in_def dict_item_def run_simps during_def
      add_participant_obj state_of_simp dict_get_def dict_merge_def)

section \<open>The participant listing\<close>

text \<open>
  C9. \<^verbatim>\<open>get_room_participants\<close> raises nothing and returns, in the room's order, one
  entry for each key of the room that has an entry in \<open>users\<close>, and nothing for a key of
  the room that has none.
\<close>

theorem get_room_participants_listing:
  "get_room_participants room_id s =
     Inr (map (\<lambda>u. participant_entry u (dict_get (users s) u []))
            (filter (\<lambda>u. dict_in u (users s)) (room_members room_id s)))"
  by (rule get_room_participants_eq)

theorem get_room_participants_listing_witness:
  "get_room_participants ''r1''
     (run_ops [Join 1 ''r1'' ''A'' [], Join 2 ''r2'' ''A'' [], Join 3 ''r1'' ''B'' [],
               Leave ''r2'' ''A''] empty_registry)
   = Inr [JObj [(''user_id'', JStr ''B''), (''room_id'', JStr ''r1'')]]"
  using get_room_participants_listing [of "''r1''"
      "run_ops [Join 1 ''r1'' ''A'' [], Join 2 ''r2'' ''A'' [], Join 3 ''r1'' ''B'' [],
                Leave ''r2'' ''A''] empty_registry"]
  by (simp add: empty_registry_def add_participant_obj disconnect_eq state_of_simp
      rooms_less_def dict_get_def dict_in_def dict_merge_def dict_set_def room_members_def
      participant_entry_def)

section \<open>Removing a participant\<close>

text \<open>
  C6, as the code has it. \<^verbatim>\<open>disconnect\<close> never raises. For a participant that is not
  bound to the room (the room may be missing) it leaves the rooms dictionary as it was,
  but it still deletes the participant's entry of \<open>users\<close>: it changes nothing only when
  there is no such entry either. A second call changes nothing more.
\<close>

theorem disconnect_absent_member:
  "fst (disconnect room_id user_id s) = Inr () \<and>
   (user_id \<notin> set (room_members room_id s) \<longrightarrow>
      state_of (disconnect room_id user_id s) = s\<lparr>users := AList.delete user_id (users s)\<rparr>) \<and>
   (user_id \<notin> set (room_members room_id s) \<and> \<not> dict_in user_id (users s) \<longrightarrow>
      state_of (disconnect room_id user_id s) = s) \<and>
   state_of (disconnect room_id user_id (state_of (disconnect room_id user_id s)))
     = state_of (disconnect room_id user_id s)"
  by (simp add: disconnect_eq state_of_simp room_members_not_in delete_not_in
      rooms_less_idem delete_idem)

theorem disconnect_absent_member_witness:
  "state_of (disconnect ''r2'' ''A''
       \<lparr>rooms = [(''r1'', [(''B'', 2)])], users = [(''B'', [(''room_id'', JStr ''r1'')])]\<rparr>)
     = \<lparr>rooms = [(''r1'', [(''B'', 2)])], users = [(''B'', [(''room_id'', JStr ''r1'')])]\<rparr>"
  using disconnect_absent_member [of "''r2''" "''A''"
      "\<lparr>rooms = [(''r1'', [(''B'', 2)])], users = [(''B'', [(''room_id'', JStr ''r1'')])]\<rparr>"]
  by (simp add: room_members_def dict_in_def)

text \<open>
  The claim as it was stated fails: \<open>A\<close> is bound to room \<open>r1\<close> only, and
  \<^verbatim>\<open>disconnect\<close> for room \<open>r2\<close> deletes its entry of \<open>users\<close>.
\<close>

theorem disconnect_absent_member_counterexample:
  "''A'' \<notin> set (room_members ''r2''
       \<lparr>rooms = [(''r1'', [(''A'', 1)])], users = [(''A'', [(''room_id'', JStr ''r1'')])]\<rparr>) \<and>
   state_of (disconnect ''r2'' ''A''
       \<lparr>rooms = [(''r1'', [(''A'', 1)])], users = [(''A'', [(''room_id'', JStr ''r1'')])]\<rparr>)
     = \<lparr>rooms = [(''r1'', [(''A'', 1)])], users = []\<rparr>"
  by (simp add: disconnect_eq state_of_simp room_members_def rooms_less_def)

section \<open>Unicast to an absent target\<close>

text \<open>
  C8. \<^verbatim>\<open>send_to_user\<close> for a target key that is not bound to the room (the room may be
  missing altogether) sends nothing, raises nothing and returns the registry as it was.
\<close>

theorem send_to_user_absent_noop:
  "target \<notin> set (room_members room_id s) \<Longrightarrow>
   send_to_user fails room_id (JStr target) message s = (Inr (), s, [])"
proof (cases "map_of (rooms s) room_id")
  case None
  then show ?thesis
    by (simp add: send_to_user_def dict_in_None)
next
  case (Some conns)
  assume "target \<notin> set (room_members room_id s)"
  with Some have "\<not> dict_in target conns"
    by (simp add: room_members_def dict_in_def)
  with Some show ?thesis
    by (simp add: send_to_user_def dict_in_Some dict_item_Some run_simps)
qed

theorem send_to_user_absent_noop_witness:
  "send_to_user (\<lambda>w. False) ''r1'' (JStr ''B'') (JStr ''m'')
     \<lparr>rooms = [(''r1'', [(''A'', 1)])], users = [(''A'', [(''room_id'', JStr ''r1'')])]\<rparr>
   = (Inr (), \<lparr>rooms = [(''r1'', [(''A'', 1)])], users = [(''A'', [(''room_id'', JStr ''r1'')])]\<rparr>, [])"
  by (rule send_to_user_absent_noop) (simp add: room_members_def)



end
